theory Spec2Isabelle
  imports Main "HOL-Library.Sublist"
begin

section \<open>The pattern engine used by both scripts\<close>

text \<open>
  Both scripts rewrite a note with \<^verbatim>\<open>regex.sub(pattern, template, text)\<close>. The text is a
  Python string, modelled as a \<open>string\<close> in which every \<open>char\<close> stands for one code point
  of the decoded file (code points below 256; of the constructs used, only \<^verbatim>\<open>\s\<close> and
  \<^verbatim>\<open>\d\<close> tell code points apart beyond the literals).

  A pattern is embedded as a backtracking matcher in continuation style: it receives the
  groups captured so far, the rest of the text and a continuation standing for the rest
  of the pattern; \<open>None\<close> means "backtrack". A result is either a match, with its groups
  and the text left after it, or the place recorded by \<^verbatim>\<open>(*SKIP)\<close> when the engine
  backtracks onto that verb: the attempt at this start position is then over and the
  search resumes at the recorded place.
\<close>

type_synonym caps = "nat \<Rightarrow> string option"

datatype result = Matched caps string | Skipped string

type_synonym cont = "caps \<Rightarrow> string \<Rightarrow> result option"

type_synonym rx = "caps \<Rightarrow> string \<Rightarrow> cont \<Rightarrow> result option"

text \<open>A literal piece of the pattern.\<close>

fun lit :: "string \<Rightarrow> rx" where
  "lit [] c s k = k c s"
| "lit (x # l) c [] k = None"
| "lit (x # l) c (y # s) k = (if x = y then lit l c s k else None)"

text \<open>One character of a class.\<close>

fun cls :: "(char \<Rightarrow> bool) \<Rightarrow> rx" where
  "cls P c [] k = None"
| "cls P c (x # s) k = (if P x then k c s else None)"

text \<open>\<^verbatim>\<open>X*\<close> for a character class: the longest run first, then shorter ones.\<close>

fun star :: "(char \<Rightarrow> bool) \<Rightarrow> rx" where
  "star P c [] k = k c []"
| "star P c (x # s) k =
     (if P x then (case star P c s k of Some r \<Rightarrow> Some r | None \<Rightarrow> k c (x # s))
      else k c (x # s))"

text \<open>\<^verbatim>\<open>X*?\<close> for a character class: the shortest run first, then longer ones.\<close>

fun star_lazy :: "(char \<Rightarrow> bool) \<Rightarrow> rx" where
  "star_lazy P c [] k = k c []"
| "star_lazy P c (x # s) k =
     (case k c (x # s) of Some r \<Rightarrow> Some r
      | None \<Rightarrow> if P x then star_lazy P c s k else None)"

text \<open>Concatenation and ordered alternation.\<close>

fun seqs :: "rx list \<Rightarrow> rx" where
  "seqs [] c s k = k c s"
| "seqs (a # as) c s k = a c s (\<lambda>c' s'. seqs as c' s' k)"

fun alts :: "rx list \<Rightarrow> rx" where
  "alts [] c s k = None"
| "alts (a # as) c s k = (case a c s k of Some r \<Rightarrow> Some r | None \<Rightarrow> alts as c s k)"

text \<open>\<^verbatim>\<open>X+\<close> for a character class.\<close>

definition plus :: "(char \<Rightarrow> bool) \<Rightarrow> rx" where
  "plus P = seqs [cls P, star P]"

text \<open>A capturing group records the text its body consumed.\<close>

definition grp :: "nat \<Rightarrow> rx \<Rightarrow> rx" where
  "grp n a c s k = a c s (\<lambda>c' s'. k (c'(n \<mapsto> take (length s - length s') s)) s')"

definition accept :: cont where
  "accept c s = Some (Matched c s)"

text \<open>Lookahead \<^verbatim>\<open>(?=X)\<close> and negative lookahead \<^verbatim>\<open>(?!X)\<close> consume nothing.\<close>

definition ahead :: "rx \<Rightarrow> rx" where
  "ahead a c s k = (case a c s accept of Some (Matched c' s') \<Rightarrow> k c s | _ \<Rightarrow> None)"

definition not_ahead :: "rx \<Rightarrow> rx" where
  "not_ahead a c s k = (case a c s accept of None \<Rightarrow> k c s | Some r \<Rightarrow> None)"

text \<open>
  \<^verbatim>\<open>(*FAIL)\<close> backtracks at once. \<^verbatim>\<open>(*SKIP)\<close> lets the match go on; when the engine
  backtracks onto it, the whole attempt fails and the next one starts where the verb stood.
\<close>

definition fail :: rx where
  "fail c s k = None"

definition skip :: rx where
  "skip c s k = (case k c s of Some r \<Rightarrow> Some r | None \<Rightarrow> Some (Skipped s))"

definition run :: "rx \<Rightarrow> string \<Rightarrow> result option" where
  "run a s = a Map.empty s accept"

text \<open>A replacement template: literal text and group references \<^verbatim>\<open>\n\<close>.\<close>

datatype piece = Txt string | Ref nat

fun expand :: "piece list \<Rightarrow> caps \<Rightarrow> string" where
  "expand [] c = []"
| "expand (Txt t # ps) c = t @ expand ps c"
| "expand (Ref n # ps) c = (case c n of Some v \<Rightarrow> v | None \<Rightarrow> []) @ expand ps c"

text \<open>
  \<^verbatim>\<open>regex.sub\<close>: scan from the left. Where the pattern matches, the expanded template
  replaces the match and the scan goes on after it; where \<^verbatim>\<open>(*SKIP)\<close> ended the attempt,
  the text up to the recorded place is copied; elsewhere one character is copied.
  The patterns below never match the empty string and never skip to their own start
  (lemma \<open>pattern_progress\<close>), so for them the \<open>else\<close> branches, which copy one character
  and go on, are never taken.
\<close>

function regex_sub :: "rx \<Rightarrow> piece list \<Rightarrow> string \<Rightarrow> string" where
  "regex_sub a t s =
     (case run a s of
        None \<Rightarrow> (case s of [] \<Rightarrow> [] | x # s' \<Rightarrow> x # regex_sub a t s')
      | Some (Matched c r) \<Rightarrow>
          if length r < length s then expand t c @ regex_sub a t r
          else (case s of [] \<Rightarrow> expand t c | x # s' \<Rightarrow> expand t c @ x # regex_sub a t s')
      | Some (Skipped r) \<Rightarrow>
          if length r < length s then take (length s - length r) s @ regex_sub a t r
          else (case s of [] \<Rightarrow> [] | x # s' \<Rightarrow> x # regex_sub a t s'))"
  by pat_completeness auto
termination
  by (relation "measure (\<lambda>(a, t, s). length s)") auto

section \<open>Character classes\<close>

definition newline :: char where
  "newline = CHR 0x0A"

definition tab :: char where
  "tab = CHR 0x09"

definition bs :: char where
  "bs = CHR 0x5C"

text \<open>\<^verbatim>\<open>.\<close> under \<^verbatim>\<open>(?s)\<close> and without it.\<close>

definition any :: "char \<Rightarrow> bool" where
  "any x = True"

definition dot :: "char \<Rightarrow> bool" where
  "dot x = (x \<noteq> newline)"

text \<open>
  \<^verbatim>\<open>\d\<close> (decimal digits) and \<^verbatim>\<open>\s\<close> (Unicode white space), for code points below 256.
\<close>

definition digit :: "char \<Rightarrow> bool" where
  "digit x = (x \<in> set ''0123456789'')"

definition space :: "char \<Rightarrow> bool" where
  "space x = (x \<in> {CHR 0x09, CHR 0x0A, CHR 0x0B, CHR 0x0C, CHR 0x0D, CHR 0x20, CHR 0x85, CHR 0xA0})"

text \<open>\<^verbatim>\<open>[^(\)]\<close>\<close>

definition not_paren :: "char \<Rightarrow> bool" where
  "not_paren x = (x \<noteq> CHR ''('' \<and> x \<noteq> CHR '')'')"

section \<open>zettel_link_rewriter.py: the two passes over the raw note\<close>

text \<open>
  The inline flags \<^verbatim>\<open>(?s)\<close> ... \<^verbatim>\<open>(?-s)\<close> switch newline matching on for the two
  code alternatives only. Groups are numbered by their opening parenthesis.
\<close>

definition fenced :: rx where
  "fenced = seqs [lit ''```'', star_lazy any, lit ''```'', skip, fail]"

definition inline :: rx where
  "inline = seqs [lit ''`'', star_lazy any, lit ''`'', skip, fail]"

text \<open>The template \<^verbatim>\<open>[X]({{< relref "X.md" >}})\<close>, \<open>X\<close> being text and group references.\<close>

definition relref :: "piece list \<Rightarrow> piece list" where
  \<open>relref x = [Txt ''[''] @ x @ [Txt '']({{< relref "''] @ x @ [Txt ''.md" >}})'']\<close>

text \<open>
  First substitution: after the two code alternatives come
  \<^verbatim>\<open>(\ {4}|\t).*(*SKIP)(*FAIL)\<close> and \<^verbatim>\<open>(\[\[(.*)\]\](?!\s\(|\())\<close>; the
  replacement is \<^verbatim>\<open>[\3]({{< relref "\3.md" >}})\<close>.
\<close>

definition indent_or_tab :: rx where
  "indent_or_tab = seqs [grp 1 (alts [lit ''    '', lit [tab]]), star dot, skip, fail]"

definition bare_title :: rx where
  "bare_title = grp 2 (seqs [lit ''[['', grp 3 (star dot), lit '']]'',
                             not_ahead (alts [seqs [cls space, lit ''(''], lit ''(''])])"

definition linelist_pattern :: rx where
  "linelist_pattern = alts [fenced, inline, indent_or_tab, bare_title]"

definition linelist :: "string \<Rightarrow> string" where
  "linelist line = regex_sub linelist_pattern (relref [Ref 3]) line"

text \<open>
  Second substitution: after the two code alternatives come
  \<^verbatim>\<open>(\ {4}).*(*SKIP)(*FAIL)\<close> and \<^verbatim>\<open>(\[\[(\d+)\]\](\s\(|\()(.*)(?=\))\))\<close>; the
  replacement is \<^verbatim>\<open>[\3 \5]({{< relref "\3 \5.md" >}})\<close>.
\<close>

definition indent :: rx where
  "indent = seqs [grp 1 (lit ''    ''), star dot, skip, fail]"

definition numeric_target :: rx where
  "numeric_target = grp 2 (seqs [lit ''[['', grp 3 (plus digit), lit '']]'',
                                 grp 4 (alts [seqs [cls space, lit ''(''], lit ''('']),
                                 grp 5 (star dot), ahead (lit '')''), lit '')''])"

definition linelist_final_pattern :: rx where
  "linelist_final_pattern = alts [fenced, inline, indent, numeric_target]"

definition linelist_final :: "string \<Rightarrow> string" where
  "linelist_final x = regex_sub linelist_final_pattern (relref [Ref 3, Txt '' '', Ref 5]) x"

text \<open>The text part of \<^verbatim>\<open>modify_links\<close>: what is returned for the text read from the file.\<close>

definition rewriter_text :: "string \<Rightarrow> string" where
  "rewriter_text line = linelist_final (linelist line)"

section \<open>zettel_hugo_postmaker.py: the five passes over pandoc's output\<close>

text \<open>
  No indentation alternative here (it is commented out in the source), so the link
  alternative is group 1.

  \<^verbatim>\<open>(\\\[\\\[(.*)\\\]\\\](?!\s\(|\())\<close>, replaced by \<^verbatim>\<open>[\2]({{< relref "\2.md" >}})\<close>.
\<close>

definition esc_bare_title :: rx where
  "esc_bare_title = grp 1 (seqs [lit [bs, CHR ''['', bs, CHR ''[''], grp 2 (star dot),
                                 lit [bs, CHR '']'', bs, CHR '']''],
                                 not_ahead (alts [seqs [cls space, lit ''(''], lit ''(''])])"

definition firstpass_pattern :: rx where
  "firstpass_pattern = alts [fenced, inline, esc_bare_title]"

definition firstpass :: "string \<Rightarrow> string" where
  "firstpass content = regex_sub firstpass_pattern (relref [Ref 2]) content"

text \<open>\<^verbatim>\<open>(\[\\\[(\d+)\\\]\])\<close>, replaced by \<^verbatim>\<open>[\2]\<close>.\<close>

definition numeric_bracket :: rx where
  "numeric_bracket = grp 1 (seqs [lit [CHR ''['', bs, CHR ''[''], grp 2 (plus digit),
                                  lit [bs, CHR '']'', CHR '']'']])"

definition secondpass_pattern :: rx where
  "secondpass_pattern = alts [fenced, inline, numeric_bracket]"

definition secondpass :: "string \<Rightarrow> string" where
  "secondpass x = regex_sub secondpass_pattern [Txt ''['', Ref 2, Txt '']''] x"

text \<open>\<^verbatim>\<open>(\%20+(?=[^(\)]*\)))\<close>, replaced by one space.\<close>

definition percent_space :: rx where
  "percent_space = grp 1 (seqs [lit ''%2'', plus (\<lambda>x. x = CHR ''0''),
                                ahead (seqs [star not_paren, lit '')''])])"

definition thirdpass_pattern :: rx where
  "thirdpass_pattern = alts [fenced, inline, percent_space]"

definition thirdpass :: "string \<Rightarrow> string" where
  "thirdpass x = regex_sub thirdpass_pattern [Txt '' ''] x"

text \<open>
  \<^verbatim>\<open>(\[(\d+)\](\()(.*)(?=\))\))\<close>, replaced by \<^verbatim>\<open>[\2 \4]({{< relref "\2 \4.md" >}})\<close>.
\<close>

definition link_target :: rx where
  "link_target = grp 1 (seqs [lit ''['', grp 2 (plus digit), lit '']'', grp 3 (lit ''(''),
                              grp 4 (star dot), ahead (lit '')''), lit '')''])"

definition fourthpass_pattern :: rx where
  "fourthpass_pattern = alts [fenced, inline, link_target]"

definition fourthpass :: "string \<Rightarrow> string" where
  "fourthpass x = regex_sub fourthpass_pattern (relref [Ref 2, Txt '' '', Ref 4]) x"

text \<open>
  \<^verbatim>\<open>(\\\[\\\[(\d+)\\\]\\\](\s\(|\()(.*)\))\<close>, replaced by
  \<^verbatim>\<open>[\2 \4]({{< relref "\2 \4.md" >}})\<close>.
\<close>

definition esc_numeric_target :: rx where
  "esc_numeric_target = grp 1 (seqs [lit [bs, CHR ''['', bs, CHR ''[''], grp 2 (plus digit),
                                     lit [bs, CHR '']'', bs, CHR '']''],
                                     grp 3 (alts [seqs [cls space, lit ''(''], lit ''('']),
                                     grp 4 (star dot), lit '')''])"

definition finalpass_pattern :: rx where
  "finalpass_pattern = alts [fenced, inline, esc_numeric_target]"

definition finalpass :: "string \<Rightarrow> string" where
  "finalpass x = regex_sub finalpass_pattern (relref [Ref 2, Txt '' '', Ref 4]) x"

definition postmaker_text :: "string \<Rightarrow> string" where
  "postmaker_text content = finalpass (fourthpass (thirdpass (secondpass (firstpass content))))"

section \<open>The engine as the specification names it\<close>

datatype mode = ESCAPED | RAW

fun rewrite :: "string \<Rightarrow> mode \<Rightarrow> string" where
  "rewrite text RAW = rewriter_text text"
| "rewrite text ESCAPED = postmaker_text text"

section \<open>Reading the file and the batch loop\<close>

text \<open>
  \<^verbatim>\<open>modify_links(file_obj)\<close> opens the file as UTF-8 and reads it whole inside
  \<^verbatim>\<open>try: ... except EnvironmentError:\<close>. A file is modelled by what reading it gives:
  its text, an operating-system error, or bytes that are not UTF-8. The handler logs
  the operating-system error and falls through to the \<^verbatim>\<open>return\<close> of a variable that
  was never assigned; a \<^verbatim>\<open>UnicodeDecodeError\<close> is a \<^verbatim>\<open>ValueError\<close>, which the
  handler does not catch.
\<close>

datatype source_file = Text string | NotReadable | NotUtf8

datatype error = UnboundLocalError | UnicodeDecodeError

fun rewriter_modify_links :: "source_file \<Rightarrow> error + string" where
  "rewriter_modify_links (Text line) = Inr (rewriter_text line)"
| "rewriter_modify_links NotReadable = Inl UnboundLocalError"
| "rewriter_modify_links NotUtf8 = Inl UnicodeDecodeError"

fun postmaker_modify_links :: "source_file \<Rightarrow> error + string" where
  "postmaker_modify_links (Text content) = Inr (postmaker_text content)"
| "postmaker_modify_links NotReadable = Inl UnboundLocalError"
| "postmaker_modify_links NotUtf8 = Inl UnicodeDecodeError"

text \<open>
  \<^verbatim>\<open>write_file\<close> stores the text under the file's name in the target directory (it
  catches its own errors, so it never raises into the loop). \<^verbatim>\<open>process_files\<close> with
  process type \<^verbatim>\<open>all\<close> calls \<^verbatim>\<open>modify_links\<close> and \<^verbatim>\<open>write_file\<close> on each file of the
  source directory in turn, with no handler of its own, and neither has \<^verbatim>\<open>main\<close>: an
  exception leaving \<^verbatim>\<open>modify_links\<close> ends the run. The result is the number of files
  processed, or the exception, together with the target directory as the run left it.
  This is the loop of \<^verbatim>\<open>zettel_link_rewriter.py\<close>.
\<close>

type_synonym directory = "(string \<times> string) list"

definition write_file :: "string \<Rightarrow> string \<Rightarrow> directory \<Rightarrow> directory" where
  "write_file file_contents name target_dir =
     (name, file_contents) # filter (\<lambda>e. fst e \<noteq> name) target_dir"

fun process_files :: "(string \<times> source_file) list \<Rightarrow> directory \<Rightarrow> nat \<Rightarrow> (error + nat) \<times> directory" where
  "process_files [] target_dir count = (Inr count, target_dir)"
| "process_files ((name, f) # fs) target_dir count =
     (case rewriter_modify_links f of
        Inl e \<Rightarrow> (Inl e, target_dir)
      | Inr modified_text \<Rightarrow> process_files fs (write_file modified_text name target_dir) (Suc count))"

section \<open>What a matcher can do\<close>

text \<open>
  Properties of matchers, used to reason about whole patterns. A matcher is \<open>pure\<close>
  when each of its results is a result of its continuation, called on a suffix of the
  text and with groups that hold text of the input only. A matcher is \<open>skip_only\<close>
  when it can only end the attempt at a place recorded by \<^verbatim>\<open>(*SKIP)\<close>.
\<close>

definition caps_in :: "char set \<Rightarrow> caps \<Rightarrow> bool" where
  "caps_in S c \<longleftrightarrow> (\<forall>n v. c n = Some v \<longrightarrow> set v \<subseteq> S)"

definition keeps :: "string \<Rightarrow> caps \<Rightarrow> caps \<Rightarrow> bool" where
  "keeps s c c' \<longleftrightarrow> (\<forall>S. set s \<subseteq> S \<longrightarrow> caps_in S c \<longrightarrow> caps_in S c')"

definition pure :: "rx \<Rightarrow> bool" where
  "pure a \<longleftrightarrow> (\<forall>c s k res. a c s k = Some res \<longrightarrow>
      (\<exists>c' s'. suffix s' s \<and> keeps s c c' \<and> k c' s' = Some res))"

definition skip_only :: "rx \<Rightarrow> bool" where
  "skip_only a \<longleftrightarrow> (\<forall>c s k res. a c s k = Some res \<longrightarrow> (\<exists>r. res = Skipped r \<and> suffix r s))"

text \<open>The characters that a template writes itself.\<close>

definition tmpl_chars :: "piece list \<Rightarrow> char set" where
  "tmpl_chars tm = (\<Union>p\<in>set tm. case p of Txt t \<Rightarrow> set t | Ref n \<Rightarrow> {})"


text \<open>
  A matcher \<open>eats\<close> when every result of it lies after at least one consumed character.
\<close>

definition eats :: "rx \<Rightarrow> bool" where
  "eats a \<longleftrightarrow> (\<forall>c s k res. a c s k = Some res \<longrightarrow>
      (\<exists>r. res = Skipped r \<and> strict_suffix r s)
      \<or> (\<exists>c' s'. strict_suffix s' s \<and> k c' s' = Some res))"

section \<open>Vocabulary of the statements\<close>

text \<open>The escaped double brackets \<^verbatim>\<open>\[\[\<close> and \<^verbatim>\<open>\]\]\<close> of pandoc's output.\<close>

definition esc_open :: string where
  "esc_open = [bs, CHR ''['', bs, CHR ''['']"

definition esc_close :: string where
  "esc_close = [bs, CHR '']'', bs, CHR '']'']"

text \<open>The cross-reference directive that both templates produce for the text \<open>x\<close>.\<close>

definition directive :: "string \<Rightarrow> string" where
  \<open>directive x = ''['' @ x @ '']({{< relref "'' @ x @ ''.md" >}})''\<close>

text \<open>The rest of a text that begins at the end of a line.\<close>

definition ends_line :: "string \<Rightarrow> bool" where
  "ends_line r \<longleftrightarrow> (r = [] \<or> hd r = newline)"

text \<open>The passes of each mode, in the order in which \<^verbatim>\<open>modify_links\<close> applies them.\<close>

fun passes :: "mode \<Rightarrow> (string \<Rightarrow> string) list" where
  "passes RAW = [linelist, linelist_final]"
| "passes ESCAPED = [firstpass, secondpass, thirdpass, fourthpass, finalpass]"

text \<open>
  Characters at which no alternative of any pattern can begin: all but the backtick, the
  opening bracket, the space, the tab, the backslash and the percent sign.
\<close>

definition inert :: "char \<Rightarrow> bool" where
  "inert x \<longleftrightarrow> x \<notin> {CHR 0x60, CHR ''['', CHR '' '', tab, bs, CHR ''%''}"

text \<open>The pattern and the template of each pass, in the order of application.\<close>

fun rules :: "mode \<Rightarrow> (rx \<times> piece list) list" where
  "rules RAW = [(linelist_pattern, relref [Ref 3]),
                (linelist_final_pattern, relref [Ref 3, Txt '' '', Ref 5])]"
| "rules ESCAPED = [(firstpass_pattern, relref [Ref 2]),
                    (secondpass_pattern, [Txt ''['', Ref 2, Txt '']'']),
                    (thirdpass_pattern, [Txt '' '']),
                    (fourthpass_pattern, relref [Ref 2, Txt '' '', Ref 4]),
                    (finalpass_pattern, relref [Ref 2, Txt '' '', Ref 4])]"

text \<open>
  Where the scan goes. \<open>over a t l span s\<close> follows \<^verbatim>\<open>regex.sub\<close> over the text
  \<open>l @ span @ s\<close> up to the part \<open>span\<close> and gives what the pass writes for \<open>l\<close> and for
  \<open>s\<close> in the two cases in which nothing that begins in \<open>l\<close> cuts into \<open>span\<close>: the scan
  comes to stand at the beginning of \<open>span\<close> (for a code span, which the pass then skips,
  what is written for \<open>s\<close> is the pass on \<open>s\<close>), or a skip that begins in \<open>l\<close> ends at the
  end of \<open>span\<close> or after it. It is \<open>None\<close> when a match that begins in \<open>l\<close> ends after
  the beginning of \<open>span\<close>, and when a skip that begins in \<open>l\<close> ends inside \<open>span\<close> (and in
  the case, which the patterns of the two scripts never produce, of a match or a skip
  that consumes nothing).
\<close>

function over :: "rx \<Rightarrow> piece list \<Rightarrow> string \<Rightarrow> string \<Rightarrow> string \<Rightarrow> (string \<times> string) option" where
  "over a t [] span s = Some ([], regex_sub a t s)"
| "over a t (x # l) span s =
     (case run a (x # l @ span @ s) of
        None \<Rightarrow> map_option (apfst ((#) x)) (over a t l span s)
      | Some (Matched c r) \<Rightarrow>
          if length (span @ s) \<le> length r \<and> length r < length (x # l @ span @ s)
          then map_option (apfst ((@) (expand t c)))
                 (over a t (take (length r - length (span @ s)) r) span s)
          else None
      | Some (Skipped r) \<Rightarrow>
          if length (span @ s) \<le> length r \<and> length r < length (x # l @ span @ s)
          then map_option (apfst ((@) (take (length (x # l @ span @ s) - length r) (x # l @ span @ s))))
                 (over a t (take (length r - length (span @ s)) r) span s)
          else if length r \<le> length s
          then Some (x # l, take (length s - length r) s @ regex_sub a t r)
          else None)"
  by pat_completeness auto
termination
  by (relation "measure (\<lambda>(a, t, l, span, s). length l)") auto

text \<open>
  The same through the passes of a pipeline: each pass works on the text that the passes
  before it have made of \<open>lead\<close> and \<open>rest\<close>.
\<close>

fun through :: "(rx \<times> piece list) list \<Rightarrow> string \<Rightarrow> string \<Rightarrow> string \<Rightarrow> (string \<times> string) option" where
  "through [] lead span rest = Some (lead, rest)"
| "through ((a, t) # ps) lead span rest =
     (case over a t lead span rest of
        None \<Rightarrow> None
      | Some (lead', rest') \<Rightarrow> through ps lead' span rest')"

text \<open>The link alternative of each pass, the last alternative of its pattern.\<close>

fun links :: "mode \<Rightarrow> rx list" where
  "links RAW = [bare_title, numeric_target]"
| "links ESCAPED = [esc_bare_title, numeric_bracket, percent_space, link_target,
                    esc_numeric_target]"

text \<open>A pattern occurs in a text when it matches at some place of it.\<close>

fun occurs :: "rx \<Rightarrow> string \<Rightarrow> bool" where
  "occurs a [] = (case run a [] of None \<Rightarrow> False | Some r \<Rightarrow> True)"
| "occurs a (x # s) = (case run a (x # s) of None \<Rightarrow> occurs a s | Some r \<Rightarrow> True)"


text \<open>The brackets \<^verbatim>\<open>[\[\<close> and \<^verbatim>\<open>\]]\<close> that pandoc writes around a citation number.\<close>

definition num_open :: string where
  "num_open = [CHR ''['', bs, CHR ''['']"

definition num_close :: string where
  "num_close = [bs, CHR '']'', CHR '']'']"

section \<open>Lemmas about the engine\<close>

declare regex_sub.simps [simp del]


subsection \<open>Literals, repetition and the scan\<close>

lemma lit_prefix: "lit p c s k = (if prefix p s then k c (drop (length p) s) else None)"
  by (induction p c s k rule: lit.induct) auto

lemma lit_append [simp]: "lit p c (p @ r) k = k c r"
  by (simp add: lit_prefix)

lemma star_stop: "r = [] \<or> \<not> P (hd r) \<Longrightarrow> star P c r k = k c r"
  by (cases r) auto

lemma star_lazy_here: "k c s = Some res \<Longrightarrow> star_lazy P c s k = Some res"
  by (cases s) auto

lemma star_lazy_none: "(\<And>t. suffix t s \<Longrightarrow> k c t = None) \<Longrightarrow> star_lazy P c s k = None"
proof (induction s)
  case Nil
  then show ?case by simp
next
  case (Cons x s)
  have "star_lazy P c s k = None"
    by (rule Cons.IH) (simp add: Cons.prems suffix_Cons)
  moreover have "k c (x # s) = None"
    by (simp add: Cons.prems)
  ultimately show ?case by simp
qed

lemma star_lazy_pass:
  "\<forall>x\<in>set l. P x \<Longrightarrow> (\<And>t. t \<noteq> [] \<Longrightarrow> suffix t l \<Longrightarrow> k c (t @ r) = None)
   \<Longrightarrow> star_lazy P c (l @ r) k = star_lazy P c r k"
proof (induction l)
  case Nil
  then show ?case by simp
next
  case (Cons x l)
  have "k c ((x # l) @ r) = None"
    by (rule Cons.prems(2)) auto
  moreover have "star_lazy P c (l @ r) k = star_lazy P c r k"
    using Cons.prems by (intro Cons.IH) (auto simp: suffix_Cons)
  ultimately show ?case using Cons.prems(1) by simp
qed


lemma sub_none: "run a (x # s) = None \<Longrightarrow> regex_sub a t (x # s) = x # regex_sub a t s"
  by (simp add: regex_sub.simps)

lemma sub_skip:
  "run a (p @ r) = Some (Skipped r) \<Longrightarrow> p \<noteq> [] \<Longrightarrow> regex_sub a t (p @ r) = p @ regex_sub a t r"
  by (subst regex_sub.simps) simp

lemma sub_match:
  "run a (p @ r) = Some (Matched c r) \<Longrightarrow> p \<noteq> []
   \<Longrightarrow> regex_sub a t (p @ r) = expand t c @ regex_sub a t r"
  by (subst regex_sub.simps) simp

subsection \<open>Pure and skip-only matchers\<close>

lemma keeps_refl [simp]: "keeps s c c"
  by (simp add: keeps_def)

lemma keeps_trans:
  assumes "keeps s c c'" "suffix s' s" "keeps s' c' c''"
  shows "keeps s c c''"
  unfolding keeps_def
proof (intro allI impI)
  fix S assume S: "set s \<subseteq> S" "caps_in S c"
  then have "caps_in S c'" using assms(1) by (simp add: keeps_def)
  moreover have "set s' \<subseteq> S" using set_mono_suffix[OF assms(2)] S(1) by simp
  ultimately show "caps_in S c''" using assms(3) by (simp add: keeps_def)
qed

lemma keeps_upd:
  assumes "keeps s c c'"
  shows "keeps s c (c'(n \<mapsto> take m s))"
  unfolding keeps_def
proof (intro allI impI)
  fix S assume S: "set s \<subseteq> S" "caps_in S c"
  then have 1: "caps_in S c'" using assms by (simp add: keeps_def)
  have 2: "set (take m s) \<subseteq> S" using set_take_subset[of m s] S(1) by simp
  show "caps_in S (c'(n \<mapsto> take m s))"
    unfolding caps_in_def
  proof (intro allI impI)
    fix n' v assume h: "(c'(n \<mapsto> take m s)) n' = Some v"
    show "set v \<subseteq> S"
    proof (cases "n' = n")
      case True
      with h 2 show ?thesis by simp
    next
      case False
      with h 1 show ?thesis by (simp add: caps_in_def)
    qed
  qed
qed

lemma pureI:
  "(\<And>c s k res. a c s k = Some res \<Longrightarrow> \<exists>c' s'. suffix s' s \<and> keeps s c c' \<and> k c' s' = Some res)
   \<Longrightarrow> pure a"
  unfolding pure_def by (intro allI impI)

lemma pureD:
  "pure a \<Longrightarrow> a c s k = Some res \<Longrightarrow> \<exists>c' s'. suffix s' s \<and> keeps s c c' \<and> k c' s' = Some res"
  unfolding pure_def by (elim allE impE) assumption

lemma pureE:
  assumes "pure a" "a c s k = Some res"
  obtains c' s' where "suffix s' s" "keeps s c c'" "k c' s' = Some res"
proof -
  from pureD[OF assms] obtain c' where "\<exists>s'. suffix s' s \<and> keeps s c c' \<and> k c' s' = Some res" ..
  then obtain s' where "suffix s' s \<and> keeps s c c' \<and> k c' s' = Some res" ..
  then show thesis by (elim conjE) (rule that)
qed

lemma from_here:
  "suffix s' s \<Longrightarrow> k c s' = Some res \<Longrightarrow> \<exists>c' s'. suffix s' s \<and> keeps s c c' \<and> k c' s' = Some res"
  by (rule exI[of _ c], rule exI[of _ s']) simp

lemma from_there:
  "suffix s' s \<Longrightarrow> keeps s c c' \<Longrightarrow> k c' s' = Some res
   \<Longrightarrow> \<exists>c' s'. suffix s' s \<and> keeps s c c' \<and> k c' s' = Some res"
  by (rule exI[of _ c'], rule exI[of _ s']) simp

lemma pure_lit: "pure (lit p)"
proof (rule pureI)
  fix c s k res assume "lit p c s k = Some res"
  then have "k c (drop (length p) s) = Some res"
    by (simp add: lit_prefix split: if_splits)
  then show "\<exists>c' s'. suffix s' s \<and> keeps s c c' \<and> k c' s' = Some res"
    by (rule from_here[OF suffix_drop])
qed

lemma pure_cls: "pure (cls P)"
proof (rule pureI)
  fix c s k res assume h: "cls P c s k = Some res"
  show "\<exists>c' s'. suffix s' s \<and> keeps s c c' \<and> k c' s' = Some res"
  proof (cases s)
    case Nil
    with h show ?thesis by simp
  next
    case (Cons x s')
    with h have "k c s' = Some res" by (simp split: if_splits)
    moreover have "suffix s' s" using Cons by (simp add: suffix_Cons)
    ultimately show ?thesis by (rule from_here[rotated])
  qed
qed

lemma star_from:
  "star P c s k = Some res \<Longrightarrow> \<exists>s'. suffix s' s \<and> k c s' = Some res"
proof (induction s)
  case Nil
  then have "k c [] = Some res" by simp
  then show ?case by (intro exI[of _ "[]"]) simp
next
  case (Cons x s)
  show ?case
  proof (cases "P x \<and> star P c s k \<noteq> None")
    case True
    with Cons.prems have "star P c s k = Some res" by (simp split: option.splits)
    from Cons.IH[OF this] obtain s' where "suffix s' s \<and> k c s' = Some res" ..
    then have "suffix s' (x # s) \<and> k c s' = Some res" by (simp add: suffix_Cons)
    then show ?thesis ..
  next
    case False
    with Cons.prems have "k c (x # s) = Some res" by (auto split: if_splits option.splits)
    then show ?thesis by (intro exI[of _ "x # s"]) simp
  qed
qed

lemma star_lazy_from:
  "star_lazy P c s k = Some res \<Longrightarrow> \<exists>s'. suffix s' s \<and> k c s' = Some res"
proof (induction s)
  case Nil
  then have "k c [] = Some res" by simp
  then show ?case by (intro exI[of _ "[]"]) simp
next
  case (Cons x s)
  show ?case
  proof (cases "k c (x # s)")
    case None
    with Cons.prems have "star_lazy P c s k = Some res" by (simp split: if_splits)
    from Cons.IH[OF this] obtain s' where "suffix s' s \<and> k c s' = Some res" ..
    then have "suffix s' (x # s) \<and> k c s' = Some res" by (simp add: suffix_Cons)
    then show ?thesis ..
  next
    case (Some r)
    with Cons.prems have "k c (x # s) = Some res" by simp
    then show ?thesis by (intro exI[of _ "x # s"]) simp
  qed
qed

lemma pure_star: "pure (star P)"
proof (rule pureI)
  fix c s k res assume "star P c s k = Some res"
  from star_from[OF this] obtain s' where "suffix s' s \<and> k c s' = Some res" ..
  then show "\<exists>c' s'. suffix s' s \<and> keeps s c c' \<and> k c' s' = Some res"
    by (intro from_here[of s']) simp_all
qed

lemma pure_star_lazy: "pure (star_lazy P)"
proof (rule pureI)
  fix c s k res assume "star_lazy P c s k = Some res"
  from star_lazy_from[OF this] obtain s' where "suffix s' s \<and> k c s' = Some res" ..
  then show "\<exists>c' s'. suffix s' s \<and> keeps s c c' \<and> k c' s' = Some res"
    by (intro from_here[of s']) simp_all
qed

lemma pure_seqs: "(\<And>a. a \<in> set as \<Longrightarrow> pure a) \<Longrightarrow> pure (seqs as)"
proof (induction as)
  case Nil
  show ?case
  proof (rule pureI)
    fix c s k res assume "seqs [] c s k = Some res"
    then have "k c s = Some res" by simp
    then show "\<exists>c' s'. suffix s' s \<and> keeps s c c' \<and> k c' s' = Some res"
      by (intro from_here[of s]) simp_all
  qed
next
  case (Cons a as)
  have a: "pure a" and r: "pure (seqs as)"
    using Cons by simp_all
  show ?case
  proof (rule pureI)
    fix c s k res assume "seqs (a # as) c s k = Some res"
    then have "a c s (\<lambda>c' s'. seqs as c' s' k) = Some res" by simp
    from pureE[OF a this] obtain c1 s1 where
      1: "suffix s1 s" "keeps s c c1" "seqs as c1 s1 k = Some res" .
    from pureE[OF r 1(3)] obtain c2 s2 where
      2: "suffix s2 s1" "keeps s1 c1 c2" "k c2 s2 = Some res" .
    have "suffix s2 s" using 1(1) 2(1) by (rule suffix_order.trans[rotated])
    moreover have "keeps s c c2" using 1(2) 1(1) 2(2) by (rule keeps_trans)
    ultimately show "\<exists>c' s'. suffix s' s \<and> keeps s c c' \<and> k c' s' = Some res"
      using 2(3) by (rule from_there)
  qed
qed

lemma pure_alts: "(\<And>a. a \<in> set as \<Longrightarrow> pure a) \<Longrightarrow> pure (alts as)"
proof (induction as)
  case Nil
  show ?case by (rule pureI) simp
next
  case (Cons a as)
  have a: "pure a" and r: "pure (alts as)"
    using Cons by simp_all
  show ?case
  proof (rule pureI)
    fix c s k res assume h: "alts (a # as) c s k = Some res"
    show "\<exists>c' s'. suffix s' s \<and> keeps s c c' \<and> k c' s' = Some res"
    proof (cases "a c s k")
      case None
      with h have "alts as c s k = Some res" by simp
      then show ?thesis by (rule pureD[OF r])
    next
      case (Some r')
      with h have "a c s k = Some res" by simp
      then show ?thesis by (rule pureD[OF a])
    qed
  qed
qed

lemma pure_plus: "pure (plus P)"
  unfolding plus_def by (rule pure_seqs) (auto simp: pure_cls pure_star)

lemma pure_grp: "pure a \<Longrightarrow> pure (grp n a)"
proof (rule pureI)
  fix c s k res assume a: "pure a" and h: "grp n a c s k = Some res"
  from h have "a c s (\<lambda>c' s'. k (c'(n \<mapsto> take (length s - length s') s)) s') = Some res"
    by (simp add: grp_def)
  from pureE[OF a this] obtain c' s' where 1: "suffix s' s" "keeps s c c'"
    "k (c'(n \<mapsto> take (length s - length s') s)) s' = Some res" .
  from 1(1) keeps_upd[OF 1(2)] 1(3)
  show "\<exists>c' s'. suffix s' s \<and> keeps s c c' \<and> k c' s' = Some res"
    by (rule from_there)
qed

lemma pure_ahead: "pure (ahead a)"
proof (rule pureI)
  fix c s k res assume "ahead a c s k = Some res"
  then have "k c s = Some res"
    by (simp add: ahead_def split: option.splits result.splits)
  then show "\<exists>c' s'. suffix s' s \<and> keeps s c c' \<and> k c' s' = Some res"
    by (intro from_here[of s]) simp_all
qed

lemma pure_not_ahead: "pure (not_ahead a)"
proof (rule pureI)
  fix c s k res assume "not_ahead a c s k = Some res"
  then have "k c s = Some res"
    by (simp add: not_ahead_def split: option.splits)
  then show "\<exists>c' s'. suffix s' s \<and> keeps s c c' \<and> k c' s' = Some res"
    by (intro from_here[of s]) simp_all
qed

lemma seqs_append: "seqs (as @ as') c s k = seqs as c s (\<lambda>c' s'. seqs as' c' s' k)"
  by (induction as arbitrary: c s) simp_all

lemma skip_onlyD: "skip_only a \<Longrightarrow> a c s k = Some res \<Longrightarrow> \<exists>r. res = Skipped r \<and> suffix r s"
  unfolding skip_only_def by (elim allE impE) assumption

lemma skip_only_seqs:
  assumes "\<And>a. a \<in> set as \<Longrightarrow> pure a"
  shows "skip_only (seqs (as @ [skip, fail]))"
proof -
  have p: "pure (seqs as)" using assms by (rule pure_seqs)
  show ?thesis
    unfolding skip_only_def
  proof (intro allI impI)
    fix c s k res assume "seqs (as @ [skip, fail]) c s k = Some res"
    then have "seqs as c s (\<lambda>c' s'. Some (Skipped s')) = Some res"
      by (simp add: seqs_append skip_def fail_def)
    from pureE[OF p this] obtain c' s' where "suffix s' s" "Some (Skipped s') = Some res" .
    then have "res = Skipped s' \<and> suffix s' s" by simp
    then show "\<exists>r. res = Skipped r \<and> suffix r s" ..
  qed
qed

subsection \<open>Matchers that need a character; texts without a match\<close>






lemma alts_append_shape:
  assumes "\<And>a. a \<in> set ps \<Longrightarrow> skip_only a" "alts (ps @ [l]) c s k = Some res"
  shows "(\<exists>r. res = Skipped r \<and> suffix r s) \<or> l c s k = Some res"
  using assms
proof (induction ps)
  case Nil
  then show ?case by (simp split: option.splits)
next
  case (Cons a ps)
  show ?case
  proof (cases "a c s k")
    case None
    with Cons.prems(2) have "alts (ps @ [l]) c s k = Some res" by simp
    then show ?thesis using Cons.IH Cons.prems(1) by simp
  next
    case (Some r')
    with Cons.prems(2) have "a c s k = Some res" by simp
    moreover have "skip_only a" using Cons.prems(1) by simp
    ultimately show ?thesis using skip_onlyD by simp
  qed
qed

lemma regex_sub_id:
  assumes "\<And>t. suffix t s \<Longrightarrow> run a t = None \<or> (\<exists>r. run a t = Some (Skipped r) \<and> suffix r t)"
  shows "regex_sub a tm s = s"
  using assms
proof (induction "length s" arbitrary: s rule: less_induct)
  case less
  have here: "run a s = None \<or> (\<exists>r. run a s = Some (Skipped r) \<and> suffix r s)"
    by (rule less.prems) simp
  have tl: "regex_sub a tm s' = s'" if "s = x # s'" for x s'
  proof (rule less.hyps)
    show "length s' < length s" using that by simp
    fix t assume "suffix t s'"
    then have "suffix t s" using that by (simp add: suffix_Cons)
    then show "run a t = None \<or> (\<exists>r. run a t = Some (Skipped r) \<and> suffix r t)"
      by (rule less.prems)
  qed
  have step: "(case s of [] \<Rightarrow> [] | x # s' \<Rightarrow> x # regex_sub a tm s') = s"
    by (cases s) (simp_all add: tl)
  from here show ?case
  proof
    assume "run a s = None"
    then show ?thesis by (subst regex_sub.simps) (simp add: step)
  next
    assume "\<exists>r. run a s = Some (Skipped r) \<and> suffix r s"
    then obtain r where r: "run a s = Some (Skipped r)" "suffix r s" by auto
    show ?thesis
    proof (cases "length r < length s")
      case True
      have "regex_sub a tm r = r"
      proof (rule less.hyps[OF True])
        fix t assume "suffix t r"
        then have "suffix t s" using r(2) by (rule suffix_order.trans)
        then show "run a t = None \<or> (\<exists>r. run a t = Some (Skipped r) \<and> suffix r t)"
          by (rule less.prems)
      qed
      moreover obtain p where "s = p @ r" using r(2) by (auto simp: suffix_def)
      ultimately show ?thesis using r(1) True by (subst regex_sub.simps) simp
    next
      case False
      then show ?thesis using r(1) by (subst regex_sub.simps) (simp add: step)
    qed
  qed
qed

lemma regex_sub_line:
  assumes "\<And>t. t \<noteq> [] \<Longrightarrow> suffix t l
     \<Longrightarrow> run a (t @ r) = None \<or> run a (t @ r) = Some (Skipped r)"
  shows "regex_sub a tm (l @ r) = l @ regex_sub a tm r"
  using assms
proof (induction l)
  case Nil
  show ?case by simp
next
  case (Cons x l)
  have "run a ((x # l) @ r) = None \<or> run a ((x # l) @ r) = Some (Skipped r)"
    by (rule Cons.prems) simp_all
  then show ?case
  proof
    assume n: "run a ((x # l) @ r) = None"
    have "regex_sub a tm (l @ r) = l @ regex_sub a tm r"
      by (rule Cons.IH) (simp add: Cons.prems suffix_Cons)
    then show ?thesis using n by (simp add: sub_none)
  next
    assume "run a ((x # l) @ r) = Some (Skipped r)"
    then show ?thesis by (rule sub_skip) simp
  qed
qed

lemma star_split:
  assumes "\<forall>x\<in>set l. P x" "\<And>t. t \<noteq> [] \<Longrightarrow> suffix t l \<Longrightarrow> k c (t @ m) = None"
  shows "star P c (l @ m) k = star P c m k"
  using assms
proof (induction l)
  case Nil
  show ?case by simp
next
  case (Cons x l)
  have 1: "k c ((x # l) @ m) = None" by (rule Cons.prems(2)) simp_all
  have 2: "star P c (l @ m) k = star P c m k"
    using Cons.prems by (intro Cons.IH) (simp_all add: suffix_Cons)
  show ?case using Cons.prems(1) 1 2 by (simp split: option.splits)
qed

subsection \<open>The alternatives of the seven patterns\<close>

lemma skip_only_fenced: "skip_only fenced"
proof -
  have "skip_only (seqs ([lit ''```'', star_lazy any, lit ''```''] @ [skip, fail]))"
    by (rule skip_only_seqs) (auto simp: pure_lit pure_star_lazy)
  then show ?thesis by (simp add: fenced_def)
qed

lemma skip_only_inline: "skip_only inline"
proof -
  have "skip_only (seqs ([lit ''`'', star_lazy any, lit ''`''] @ [skip, fail]))"
    by (rule skip_only_seqs) (auto simp: pure_lit pure_star_lazy)
  then show ?thesis by (simp add: inline_def)
qed

lemma skip_only_indent_or_tab: "skip_only indent_or_tab"
proof -
  have "pure (grp 1 (alts [lit ''    '', lit [tab]]))"
    by (intro pure_grp pure_alts) (auto simp: pure_lit)
  then have "skip_only (seqs ([grp 1 (alts [lit ''    '', lit [tab]]), star dot] @ [skip, fail]))"
    by (intro skip_only_seqs) (auto simp: pure_star)
  then show ?thesis by (simp add: indent_or_tab_def)
qed

lemma skip_only_indent: "skip_only indent"
proof -
  have "pure (grp 1 (lit ''    ''))"
    by (intro pure_grp pure_lit)
  then have "skip_only (seqs ([grp 1 (lit ''    ''), star dot] @ [skip, fail]))"
    by (intro skip_only_seqs) (auto simp: pure_star)
  then show ?thesis by (simp add: indent_def)
qed

lemma pure_paren: "pure (alts [seqs [cls space, lit ''(''], lit ''(''])"
  by (intro pure_alts) (auto simp: pure_lit pure_cls intro!: pure_seqs)

lemma pure_bare_title: "pure bare_title"
  unfolding bare_title_def
  by (intro pure_grp pure_seqs) (auto simp: pure_lit pure_star pure_not_ahead intro!: pure_grp)

lemma pure_numeric_target: "pure numeric_target"
  unfolding numeric_target_def
  by (intro pure_grp pure_seqs)
     (auto simp: pure_lit pure_star pure_plus pure_ahead pure_paren intro!: pure_grp)

lemma pure_esc_bare_title: "pure esc_bare_title"
  unfolding esc_bare_title_def
  by (intro pure_grp pure_seqs) (auto simp: pure_lit pure_star pure_not_ahead intro!: pure_grp)

lemma pure_numeric_bracket: "pure numeric_bracket"
  unfolding numeric_bracket_def
  by (intro pure_grp pure_seqs) (auto simp: pure_lit pure_plus intro!: pure_grp)

lemma pure_percent_space: "pure percent_space"
  unfolding percent_space_def
  by (intro pure_grp pure_seqs) (auto simp: pure_lit pure_plus pure_ahead)

lemma pure_link_target: "pure link_target"
  unfolding link_target_def
  by (intro pure_grp pure_seqs)
     (auto simp: pure_lit pure_star pure_plus pure_ahead intro!: pure_grp)

lemma pure_esc_numeric_target: "pure esc_numeric_target"
  unfolding esc_numeric_target_def
  by (intro pure_grp pure_seqs)
     (auto simp: pure_lit pure_star pure_plus pure_paren intro!: pure_grp)

lemma scan_shape:
  assumes "\<And>a. a \<in> set ps \<Longrightarrow> skip_only a" "run (alts (ps @ [l])) s = Some res"
  shows "(\<exists>r. res = Skipped r \<and> suffix r s) \<or> l Map.empty s accept = Some res"
  using assms unfolding run_def by (rule alts_append_shape)

lemma scan_id:
  assumes "\<And>a. a \<in> set ps \<Longrightarrow> skip_only a"
    and "\<And>t. suffix t s \<Longrightarrow> l Map.empty t accept = None"
  shows "regex_sub (alts (ps @ [l])) tm s = s"
proof (rule regex_sub_id)
  fix t assume t: "suffix t s"
  show "run (alts (ps @ [l])) t = None
        \<or> (\<exists>r. run (alts (ps @ [l])) t = Some (Skipped r) \<and> suffix r t)"
  proof (cases "run (alts (ps @ [l])) t")
    case None
    then show ?thesis by simp
  next
    case (Some res)
    from scan_shape[OF assms(1) Some] assms(2)[OF t] Some show ?thesis by auto
  qed
qed

lemma expand_chars: "caps_in S c \<Longrightarrow> set (expand tm c) \<subseteq> S \<union> tmpl_chars tm"
proof (induction tm)
  case Nil
  then show ?case by simp
next
  case (Cons p tm)
  then have ih: "set (expand tm c) \<subseteq> S \<union> tmpl_chars tm" by simp
  have mono: "tmpl_chars tm \<subseteq> tmpl_chars (p # tm)" by (auto simp: tmpl_chars_def)
  show ?case
  proof (cases p)
    case (Txt t)
    then have "set t \<subseteq> tmpl_chars (p # tm)" by (auto simp: tmpl_chars_def)
    with ih mono Txt show ?thesis by auto
  next
    case (Ref n)
    have "set (case c n of Some v \<Rightarrow> v | None \<Rightarrow> []) \<subseteq> S"
    proof (cases "c n")
      case None
      then show ?thesis by simp
    next
      case (Some v)
      then have "set v \<subseteq> S" using Cons.prems by (simp add: caps_in_def)
      with Some show ?thesis by simp
    qed
    with ih mono Ref show ?thesis by auto
  qed
qed

lemma scan_match:
  assumes "pure l" "l Map.empty s accept = Some (Matched c r)"
  shows "suffix r s \<and> caps_in (set s) c"
proof -
  from pureE[OF assms] obtain c' s' where
    1: "suffix s' s" "keeps s Map.empty c'" "accept c' s' = Some (Matched c r)" .
  from 1(3) have "c' = c" "s' = r" by (simp_all add: accept_def)
  moreover have "caps_in (set s) Map.empty" by (simp add: caps_in_def)
  ultimately show ?thesis using 1(1,2) by (simp add: keeps_def)
qed

lemma scan_chars:
  assumes "\<And>a. a \<in> set ps \<Longrightarrow> skip_only a" "pure l"
  shows "set (regex_sub (alts (ps @ [l])) tm s) \<subseteq> set s \<union> tmpl_chars tm"
proof (induction "length s" arbitrary: s rule: less_induct)
  case less
  let ?a = "alts (ps @ [l])"
  have tl: "set (case s of [] \<Rightarrow> [] | x # s' \<Rightarrow> x # regex_sub ?a tm s') \<subseteq> set s \<union> tmpl_chars tm"
  proof (cases s)
    case Nil
    then show ?thesis by simp
  next
    case (Cons x s')
    then have "set (regex_sub ?a tm s') \<subseteq> set s' \<union> tmpl_chars tm"
      by (intro less.hyps) simp
    with Cons show ?thesis by auto
  qed
  show ?case
  proof (cases "run ?a s")
    case None
    then show ?thesis using tl by (subst regex_sub.simps) simp
  next
    case (Some res)
    from scan_shape[OF assms(1) Some]
    consider r where "res = Skipped r" "suffix r s" | "l Map.empty s accept = Some res" by auto
    then show ?thesis
    proof cases
      case 1
      show ?thesis
      proof (cases "length r < length s")
        case True
        from less.hyps[OF True] have "set (regex_sub ?a tm r) \<subseteq> set r \<union> tmpl_chars tm" .
        moreover have "set r \<subseteq> set s" using 1(2) by (rule set_mono_suffix)
        moreover have "set (take (length s - length r) s) \<subseteq> set s" by (rule set_take_subset)
        ultimately show ?thesis using Some 1(1) True by (subst regex_sub.simps) auto
      next
        case False
        then show ?thesis using Some 1(1) tl by (subst regex_sub.simps) simp
      qed
    next
      case 2
      show ?thesis
      proof (cases res)
        case (Skipped r)
        from pureE[OF assms(2) 2] obtain c' s' where "accept c' s' = Some res" .
        with Skipped show ?thesis by (simp add: accept_def)
      next
        case (Matched c r)
        from scan_match[OF assms(2) 2[unfolded Matched]]
        have r: "suffix r s" and c: "caps_in (set s) c" by simp_all
        have e: "set (expand tm c) \<subseteq> set s \<union> tmpl_chars tm" using c by (rule expand_chars)
        show ?thesis
        proof (cases "length r < length s")
          case True
          from less.hyps[OF True] have "set (regex_sub ?a tm r) \<subseteq> set r \<union> tmpl_chars tm" .
          moreover have "set r \<subseteq> set s" using r by (rule set_mono_suffix)
          ultimately show ?thesis using Some Matched True e by (subst regex_sub.simps) auto
        next
          case False
          have "set (case s of [] \<Rightarrow> expand tm c | x # s' \<Rightarrow> expand tm c @ x # regex_sub ?a tm s')
                \<subseteq> set s \<union> tmpl_chars tm"
            using tl e by (cases s) auto
          then show ?thesis using Some Matched False by (subst regex_sub.simps) simp
        qed
      qed
    qed
  qed
qed

subsection \<open>Code spans\<close>

lemma pattern_alts:
  "linelist_pattern = alts ([fenced, inline, indent_or_tab] @ [bare_title])"
  "linelist_final_pattern = alts ([fenced, inline, indent] @ [numeric_target])"
  "firstpass_pattern = alts ([fenced, inline] @ [esc_bare_title])"
  "secondpass_pattern = alts ([fenced, inline] @ [numeric_bracket])"
  "thirdpass_pattern = alts ([fenced, inline] @ [percent_space])"
  "fourthpass_pattern = alts ([fenced, inline] @ [link_target])"
  "finalpass_pattern = alts ([fenced, inline] @ [esc_numeric_target])"
  by (simp_all add: linelist_pattern_def linelist_final_pattern_def firstpass_pattern_def
      secondpass_pattern_def thirdpass_pattern_def fourthpass_pattern_def finalpass_pattern_def)

lemma skip_only_raw1: "a \<in> set [fenced, inline, indent_or_tab] \<Longrightarrow> skip_only a"
  by (auto simp: skip_only_fenced skip_only_inline skip_only_indent_or_tab)

lemma skip_only_raw2: "a \<in> set [fenced, inline, indent] \<Longrightarrow> skip_only a"
  by (auto simp: skip_only_fenced skip_only_inline skip_only_indent)

lemma skip_only_esc: "a \<in> set [fenced, inline] \<Longrightarrow> skip_only a"
  by (auto simp: skip_only_fenced skip_only_inline)

text \<open>The code alternatives at a span.\<close>

lemma inline_at:
  assumes "CHR 0x60 \<notin> set body"
  shows "inline c (''`'' @ body @ ''`'' @ rest) k = Some (Skipped rest)"
proof -
  let ?K = "\<lambda>c' s'. seqs [lit ''`'', skip, fail] c' s' k"
  have "star_lazy any c (body @ ''`'' @ rest) ?K = star_lazy any c (''`'' @ rest) ?K"
  proof (rule star_lazy_pass)
    show "\<forall>x\<in>set body. any x" by (simp add: any_def)
    fix t assume t: "t \<noteq> []" "suffix t body"
    then obtain x t' where "t = x # t'" by (cases t) auto
    moreover have "x \<noteq> CHR 0x60" using t assms calculation set_mono_suffix[OF t(2)] by auto
    ultimately show "?K c (t @ ''`'' @ rest) = None" by simp
  qed
  moreover have "star_lazy any c (''`'' @ rest) ?K = Some (Skipped rest)"
    by (rule star_lazy_here) (simp add: skip_def fail_def)
  ultimately show ?thesis by (simp add: inline_def)
qed

lemma fenced_not_here: "\<not> prefix ''```'' s \<Longrightarrow> fenced c s k = None"
  by (simp add: fenced_def lit_prefix)

lemma inline_not_here: "\<not> prefix ''`'' s \<Longrightarrow> inline c s k = None"
  by (simp add: inline_def lit_prefix)

lemma run_inline:
  assumes "CHR 0x60 \<notin> set body" "body \<noteq> []"
  shows "run (alts (fenced # inline # as)) (''`'' @ body @ ''`'' @ rest) = Some (Skipped rest)"
proof -
  obtain x b where b: "body = x # b" using assms(2) by (cases body) auto
  then have "x \<noteq> CHR 0x60" using assms(1) by auto
  then have "fenced Map.empty (''`'' @ body @ ''`'' @ rest) accept = None"
    using b by (simp add: fenced_def)
  then show ?thesis unfolding run_def using inline_at[OF assms(1)] by simp
qed

subsection \<open>The passes, one by one and together\<close>

lemma rewrite_passes: "rewrite text m = fold (\<lambda>p. p) (passes m) text"
  by (cases m) (simp_all add: rewriter_text_def postmaker_text_def)

lemma fold_frame:
  assumes "\<And>p x. p \<in> set ps \<Longrightarrow> Q x \<Longrightarrow> p (a @ x) = a @ p x \<and> Q (p x)" "Q x"
  shows "fold (\<lambda>p. p) ps (a @ x) = a @ fold (\<lambda>p. p) ps x \<and> Q (fold (\<lambda>p. p) ps x)"
  using assms
proof (induction ps arbitrary: x)
  case Nil
  then show ?case by simp
next
  case (Cons p ps)
  have 1: "p (a @ x) = a @ p x \<and> Q (p x)" by (rule Cons.prems(1)) (simp_all add: Cons.prems(2))
  have "fold (\<lambda>p. p) ps (a @ p x) = a @ fold (\<lambda>p. p) ps (p x) \<and> Q (fold (\<lambda>p. p) ps (p x))"
    by (rule Cons.IH) (simp_all add: Cons.prems(1) 1)
  then show ?case using 1 by simp
qed

lemma inert_neq:
  "inert x \<Longrightarrow> CHR 0x60 \<noteq> x \<and> CHR ''['' \<noteq> x \<and> CHR '' '' \<noteq> x \<and> CHR 0x09 \<noteq> x
     \<and> CHR 0x5C \<noteq> x \<and> CHR ''%'' \<noteq> x"
  by (auto simp: inert_def tab_def bs_def)

lemma inert_run:
  assumes "inert x"
  shows "run linelist_pattern (x # s) = None" "run linelist_final_pattern (x # s) = None"
    "run firstpass_pattern (x # s) = None" "run secondpass_pattern (x # s) = None"
    "run thirdpass_pattern (x # s) = None" "run fourthpass_pattern (x # s) = None"
    "run finalpass_pattern (x # s) = None"
  using inert_neq[OF assms]
  by (simp_all add: run_def linelist_pattern_def linelist_final_pattern_def
      firstpass_pattern_def secondpass_pattern_def thirdpass_pattern_def fourthpass_pattern_def
      finalpass_pattern_def fenced_def inline_def indent_or_tab_def indent_def bare_title_def
      numeric_target_def esc_bare_title_def numeric_bracket_def percent_space_def
      link_target_def esc_numeric_target_def grp_def tab_def bs_def)

lemma backtick_run:
  "run (alts [indent_or_tab, bare_title]) (CHR 0x60 # s) = None"
  "run (alts [indent, numeric_target]) (CHR 0x60 # s) = None"
  "run (alts [esc_bare_title]) (CHR 0x60 # s) = None"
  "run (alts [numeric_bracket]) (CHR 0x60 # s) = None"
  "run (alts [percent_space]) (CHR 0x60 # s) = None"
  "run (alts [link_target]) (CHR 0x60 # s) = None"
  "run (alts [esc_numeric_target]) (CHR 0x60 # s) = None"
  by (simp_all add: run_def indent_or_tab_def indent_def bare_title_def
      numeric_target_def esc_bare_title_def numeric_bracket_def percent_space_def
      link_target_def esc_numeric_target_def grp_def tab_def bs_def)

lemma tmpl_backtick:
  "CHR 0x60 \<notin> tmpl_chars (relref [Ref n])"
  "CHR 0x60 \<notin> tmpl_chars (relref [Ref n, Txt '' '', Ref n'])"
  "CHR 0x60 \<notin> tmpl_chars [Txt ''['', Ref n, Txt '']'']"
  "CHR 0x60 \<notin> tmpl_chars [Txt '' '']"
  by (simp_all add: tmpl_chars_def relref_def)

lemma passes_form:
  assumes "p \<in> set (passes m)"
  obtains as l tm where "p = regex_sub (alts ([fenced, inline] @ as @ [l])) tm"
    "\<And>a. a \<in> set as \<Longrightarrow> skip_only a" "pure l" "CHR 0x60 \<notin> tmpl_chars tm"
    "\<And>x s. inert x \<Longrightarrow> run (alts ([fenced, inline] @ as @ [l])) (x # s) = None"
    "\<And>s. run (alts (as @ [l])) (CHR 0x60 # s) = None"
proof (cases m)
  case RAW
  with assms consider "p = linelist" | "p = linelist_final" by auto
  then show thesis
  proof cases
    case 1
    show thesis
    proof (rule that[of "[indent_or_tab]" bare_title "relref [Ref 3]"])
      show "p = regex_sub (alts ([fenced, inline] @ [indent_or_tab] @ [bare_title])) (relref [Ref 3])"
        using 1 by (auto simp: linelist_def linelist_pattern_def)
      show "\<And>x s. inert x \<Longrightarrow> run (alts ([fenced, inline] @ [indent_or_tab] @ [bare_title])) (x # s) = None"
        using inert_run(1) by (simp add: linelist_pattern_def)
    qed (simp_all add: skip_only_indent_or_tab pure_bare_title tmpl_backtick backtick_run)
  next
    case 2
    show thesis
    proof (rule that[of "[indent]" numeric_target "relref [Ref 3, Txt '' '', Ref 5]"])
      show "p = regex_sub (alts ([fenced, inline] @ [indent] @ [numeric_target])) (relref [Ref 3, Txt '' '', Ref 5])"
        using 2 by (auto simp: linelist_final_def linelist_final_pattern_def)
      show "\<And>x s. inert x \<Longrightarrow> run (alts ([fenced, inline] @ [indent] @ [numeric_target])) (x # s) = None"
        using inert_run(2) by (simp add: linelist_final_pattern_def)
    qed (simp_all add: skip_only_indent pure_numeric_target tmpl_backtick backtick_run)
  qed
next
  case ESCAPED
  with assms consider "p = firstpass" | "p = secondpass" | "p = thirdpass" | "p = fourthpass"
    | "p = finalpass" by auto
  then show thesis
  proof cases
    case 1
    show thesis
    proof (rule that[of "[]" esc_bare_title "relref [Ref 2]"])
      show "p = regex_sub (alts ([fenced, inline] @ [] @ [esc_bare_title])) (relref [Ref 2])"
        using 1 by (auto simp: firstpass_def firstpass_pattern_def)
      show "\<And>x s. inert x \<Longrightarrow> run (alts ([fenced, inline] @ [] @ [esc_bare_title])) (x # s) = None"
        using inert_run(3) by (simp add: firstpass_pattern_def)
    qed (simp_all add: pure_esc_bare_title tmpl_backtick backtick_run)
  next
    case 2
    show thesis
    proof (rule that[of "[]" numeric_bracket "[Txt ''['', Ref 2, Txt '']'']"])
      show "p = regex_sub (alts ([fenced, inline] @ [] @ [numeric_bracket])) [Txt ''['', Ref 2, Txt '']'']"
        using 2 by (auto simp: secondpass_def secondpass_pattern_def)
      show "\<And>x s. inert x \<Longrightarrow> run (alts ([fenced, inline] @ [] @ [numeric_bracket])) (x # s) = None"
        using inert_run(4) by (simp add: secondpass_pattern_def)
    qed (simp_all add: pure_numeric_bracket tmpl_backtick backtick_run)
  next
    case 3
    show thesis
    proof (rule that[of "[]" percent_space "[Txt '' '']"])
      show "p = regex_sub (alts ([fenced, inline] @ [] @ [percent_space])) [Txt '' '']"
        using 3 by (auto simp: thirdpass_def thirdpass_pattern_def)
      show "\<And>x s. inert x \<Longrightarrow> run (alts ([fenced, inline] @ [] @ [percent_space])) (x # s) = None"
        using inert_run(5) by (simp add: thirdpass_pattern_def)
    qed (simp_all add: pure_percent_space tmpl_backtick backtick_run)
  next
    case 4
    show thesis
    proof (rule that[of "[]" link_target "relref [Ref 2, Txt '' '', Ref 4]"])
      show "p = regex_sub (alts ([fenced, inline] @ [] @ [link_target])) (relref [Ref 2, Txt '' '', Ref 4])"
        using 4 by (auto simp: fourthpass_def fourthpass_pattern_def)
      show "\<And>x s. inert x \<Longrightarrow> run (alts ([fenced, inline] @ [] @ [link_target])) (x # s) = None"
        using inert_run(6) by (simp add: fourthpass_pattern_def)
    qed (simp_all add: pure_link_target tmpl_backtick backtick_run)
  next
    case 5
    show thesis
    proof (rule that[of "[]" esc_numeric_target "relref [Ref 2, Txt '' '', Ref 4]"])
      show "p = regex_sub (alts ([fenced, inline] @ [] @ [esc_numeric_target])) (relref [Ref 2, Txt '' '', Ref 4])"
        using 5 by (auto simp: finalpass_def finalpass_pattern_def)
      show "\<And>x s. inert x \<Longrightarrow> run (alts ([fenced, inline] @ [] @ [esc_numeric_target])) (x # s) = None"
        using inert_run(7) by (simp add: finalpass_pattern_def)
    qed (simp_all add: pure_esc_numeric_target tmpl_backtick backtick_run)
  qed
qed

lemma rewrite_nil: "rewrite [] m = []"
proof (cases m)
  case ESCAPED
  have "rewrite [] ESCAPED = []" by code_simp
  with ESCAPED show ?thesis by simp
next
  case RAW
  have "rewrite [] RAW = []" by code_simp
  with RAW show ?thesis by simp
qed

subsection \<open>A fence that is never closed\<close>

lemma no_backtick_suffix:
  assumes "CHR 0x60 \<notin> set rest" "suffix t rest"
  shows "\<not> prefix (CHR 0x60 # p) t"
proof
  assume "prefix (CHR 0x60 # p) t"
  then have "CHR 0x60 \<in> set t" using set_mono_prefix by fastforce
  then show False using assms set_mono_suffix by fastforce
qed

lemma fenced_open:
  assumes "CHR 0x60 \<notin> set rest"
  shows "fenced c (''```'' @ rest) k = None"
proof -
  have "star_lazy any c rest (\<lambda>c' s'. seqs [lit ''```'', skip, fail] c' s' k) = None"
    by (rule star_lazy_none) (simp add: lit_prefix no_backtick_suffix[OF assms])
  then show ?thesis by (simp add: fenced_def)
qed

lemma inline_open:
  "inline c (''```'' @ rest) k = Some (Skipped (''`'' @ rest))"
proof -
  have "star_lazy any c (''``'' @ rest) (\<lambda>c' s'. seqs [lit ''`'', skip, fail] c' s' k)
        = Some (Skipped (''`'' @ rest))"
    by (rule star_lazy_here) (simp add: skip_def fail_def)
  then show ?thesis by (simp add: inline_def)
qed

lemma inline_lone:
  assumes "CHR 0x60 \<notin> set rest"
  shows "inline c (''`'' @ rest) k = None"
proof -
  have "star_lazy any c rest (\<lambda>c' s'. seqs [lit ''`'', skip, fail] c' s' k) = None"
    by (rule star_lazy_none) (simp add: lit_prefix no_backtick_suffix[OF assms])
  then show ?thesis by (simp add: inline_def)
qed

lemma fenced_lone:
  assumes "CHR 0x60 \<notin> set rest"
  shows "fenced c (''`'' @ rest) k = None"
proof -
  have "\<not> prefix ''```'' (''`'' @ rest)"
    using no_backtick_suffix[OF assms suffix_order.refl, of "''`''"] by simp
  then show ?thesis by (rule fenced_not_here)
qed

lemma pass_open_fence:
  assumes "p \<in> set (passes m)" "CHR 0x60 \<notin> set rest"
  shows "p (''```'' @ rest) = ''```'' @ p rest \<and> CHR 0x60 \<notin> set (p rest)"
proof -
  from assms(1) obtain as l tm where
    p: "p = regex_sub (alts ([fenced, inline] @ as @ [l])) tm"
    and s: "\<And>a. a \<in> set as \<Longrightarrow> skip_only a" and pl: "pure l"
    and tb: "CHR 0x60 \<notin> tmpl_chars tm"
    and "\<And>x s. inert x \<Longrightarrow> run (alts ([fenced, inline] @ as @ [l])) (x # s) = None"
    and b: "\<And>s. run (alts (as @ [l])) (CHR 0x60 # s) = None"
    by (rule passes_form) (rule that, simp_all)
  let ?a = "alts (fenced # inline # (as @ [l]))"
  have a: "alts ([fenced, inline] @ as @ [l]) = ?a" by simp
  have 1: "run ?a (''``'' @ ''`'' @ rest) = Some (Skipped (''`'' @ rest))"
    using fenced_open[OF assms(2)] inline_open[of _ rest] by (simp add: run_def)
  have 2: "run ?a (CHR 0x60 # rest) = None"
    using fenced_lone[OF assms(2)] inline_lone[OF assms(2)] b[of rest] by (simp add: run_def)
  have "regex_sub ?a tm (''``'' @ ''`'' @ rest) = ''``'' @ regex_sub ?a tm (''`'' @ rest)"
    using 1 by (rule sub_skip) simp
  moreover have "regex_sub ?a tm (CHR 0x60 # rest) = CHR 0x60 # regex_sub ?a tm rest"
    using 2 by (rule sub_none)
  ultimately have "p (''```'' @ rest) = ''```'' @ p rest" by (simp add: p)
  moreover have "set (p rest) \<subseteq> set rest \<union> tmpl_chars tm"
  proof -
    have "set (regex_sub (alts (([fenced, inline] @ as) @ [l])) tm rest) \<subseteq> set rest \<union> tmpl_chars tm"
      by (rule scan_chars) (use s pl skip_only_esc in auto)
    then show ?thesis by (simp add: p)
  qed
  ultimately show ?thesis using assms(2) tb by auto
qed

lemma open_fence_lemma:
  assumes "CHR 0x60 \<notin> set rest"
  shows "rewrite (''```'' @ rest) m = ''```'' @ rewrite rest m"
proof -
  have "fold (\<lambda>p. p) (passes m) (''```'' @ rest) = ''```'' @ fold (\<lambda>p. p) (passes m) rest
        \<and> CHR 0x60 \<notin> set (fold (\<lambda>p. p) (passes m) rest)"
  proof (rule fold_frame[where Q = "\<lambda>x. CHR 0x60 \<notin> set x"])
    fix p x assume "p \<in> set (passes m)" "CHR 0x60 \<notin> set x"
    then show "p (''```'' @ x) = ''```'' @ p x \<and> CHR 0x60 \<notin> set (p x)"
      by (rule pass_open_fence)
  qed (rule assms)
  then show ?thesis by (simp add: rewrite_passes)
qed

subsection \<open>Texts without a pattern\<close>








subsection \<open>Raw mode: lines, matches and failed matches\<close>

lemma star_greedy_eq:
  "\<forall>x\<in>set l. P x \<Longrightarrow> star P c r k \<noteq> None \<Longrightarrow> star P c (l @ r) k = star P c r k"
  by (induction l) (auto split: option.splits)

lemma star_to_eol:
  assumes "newline \<notin> set l" "ends_line x"
  shows "star dot c (l @ x) (\<lambda>c s. Some (Skipped s)) = Some (Skipped x)"
proof -
  have "star dot c x (\<lambda>c s. Some (Skipped s)) = Some (Skipped x)"
    using assms(2) by (subst star_stop) (auto simp: ends_line_def dot_def)
  moreover have "\<forall>x\<in>set l. dot x" using assms(1) by (auto simp: dot_def)
  ultimately show ?thesis by (simp add: star_greedy_eq)
qed

lemma prefix_in_line:
  assumes "prefix p (t @ x)" "newline \<notin> set p" "ends_line x"
  shows "prefix p t"
proof -
  from assms(1) consider "prefix p t" | us where "p = t @ us" "prefix us x"
    by (auto simp: prefix_append)
  then show ?thesis
  proof cases
    case 1
    then show ?thesis .
  next
    case 2
    show ?thesis
    proof (cases us)
      case Nil
      with 2 show ?thesis by simp
    next
      case (Cons u us')
      with 2(2) obtain x' where "x = u # x'" by (cases x) auto
      with assms(3) have "u = newline" by (simp add: ends_line_def)
      with 2(1) Cons assms(2) show ?thesis by simp
    qed
  qed
qed

lemma lit_then_eol:
  assumes "newline \<notin> set p" "newline \<notin> set t" "ends_line x"
  shows "lit p c (t @ x) (\<lambda>c' s'. star dot (f c' s') s' (\<lambda>c s. Some (Skipped s))) = None
       \<or> lit p c (t @ x) (\<lambda>c' s'. star dot (f c' s') s' (\<lambda>c s. Some (Skipped s))) = Some (Skipped x)"
proof (cases "prefix p (t @ x)")
  case False
  then show ?thesis by (simp add: lit_prefix)
next
  case True
  then have "prefix p t" using assms(1,3) by (rule prefix_in_line)
  then obtain t' where t: "t = p @ t'" by (auto simp: prefix_def)
  then have "newline \<notin> set t'" using assms(2) by simp
  then have "star dot (f c (t' @ x)) (t' @ x) (\<lambda>c s. Some (Skipped s)) = Some (Skipped x)"
    using assms(3) by (rule star_to_eol)
  then show ?thesis by (simp add: t)
qed

lemma indent_or_tab_line:
  assumes "newline \<notin> set t" "ends_line x"
  shows "indent_or_tab c (t @ x) k = None \<or> indent_or_tab c (t @ x) k = Some (Skipped x)"
proof -
  let ?f = "\<lambda>c' s'. c'(1 \<mapsto> take (length (t @ x) - length s') (t @ x))"
  have 1: "lit ''    '' c (t @ x) (\<lambda>c' s'. star dot (?f c' s') s' (\<lambda>c s. Some (Skipped s))) = None
       \<or> lit ''    '' c (t @ x) (\<lambda>c' s'. star dot (?f c' s') s' (\<lambda>c s. Some (Skipped s))) = Some (Skipped x)"
    by (rule lit_then_eol[OF _ assms]) (simp add: newline_def)
  have 2: "lit [tab] c (t @ x) (\<lambda>c' s'. star dot (?f c' s') s' (\<lambda>c s. Some (Skipped s))) = None
       \<or> lit [tab] c (t @ x) (\<lambda>c' s'. star dot (?f c' s') s' (\<lambda>c s. Some (Skipped s))) = Some (Skipped x)"
    by (rule lit_then_eol[OF _ assms]) (simp add: newline_def tab_def)
  from 1 2 show ?thesis
    by (auto simp: indent_or_tab_def grp_def skip_def fail_def)
qed

lemma indent_line:
  assumes "newline \<notin> set t" "ends_line x"
  shows "indent c (t @ x) k = None \<or> indent c (t @ x) k = Some (Skipped x)"
proof -
  let ?f = "\<lambda>c' s'. c'(1 \<mapsto> take (length (t @ x) - length s') (t @ x))"
  have 1: "lit ''    '' c (t @ x) (\<lambda>c' s'. star dot (?f c' s') s' (\<lambda>c s. Some (Skipped s))) = None
       \<or> lit ''    '' c (t @ x) (\<lambda>c' s'. star dot (?f c' s') s' (\<lambda>c s. Some (Skipped s))) = Some (Skipped x)"
    by (rule lit_then_eol[OF _ assms]) (simp add: newline_def)
  from 1 show ?thesis
    by (auto simp: indent_def grp_def skip_def fail_def)
qed

lemma bare_title_not_here: "\<not> prefix ''[['' s \<Longrightarrow> bare_title c s k = None"
  by (simp add: bare_title_def grp_def lit_prefix)

lemma numeric_target_not_here: "\<not> prefix ''[['' s \<Longrightarrow> numeric_target c s k = None"
  by (simp add: numeric_target_def grp_def lit_prefix)

lemma raw_quiet:
  assumes "newline \<notin> set t" "t \<noteq> []" "hd t \<noteq> CHR 0x60" "\<not> prefix ''[['' (t @ x)" "ends_line x"
  shows "run linelist_pattern (t @ x) = None \<or> run linelist_pattern (t @ x) = Some (Skipped x)"
    and "run linelist_final_pattern (t @ x) = None
         \<or> run linelist_final_pattern (t @ x) = Some (Skipped x)"
proof -
  obtain y t' where t: "t = y # t'" using assms(2) by (cases t) auto
  with assms(3) have y: "y \<noteq> CHR 0x60" by simp
  have f: "fenced Map.empty (t @ x) accept = None" and i: "inline Map.empty (t @ x) accept = None"
    using y t by (simp_all add: fenced_not_here inline_not_here)
  have b: "bare_title Map.empty (t @ x) accept = None"
    and n: "numeric_target Map.empty (t @ x) accept = None"
    using assms(4) by (simp_all add: bare_title_not_here numeric_target_not_here)
  from indent_or_tab_line[OF assms(1,5), of Map.empty accept] f i b
  show "run linelist_pattern (t @ x) = None \<or> run linelist_pattern (t @ x) = Some (Skipped x)"
    by (auto simp: run_def linelist_pattern_def)
  from indent_line[OF assms(1,5), of Map.empty accept] f i n
  show "run linelist_final_pattern (t @ x) = None
         \<or> run linelist_final_pattern (t @ x) = Some (Skipped x)"
    by (auto simp: run_def linelist_final_pattern_def)
qed

lemma raw_quiet_line:
  assumes "newline \<notin> set l" "CHR 0x60 \<notin> set l" "CHR ''['' \<notin> set l" "ends_line x"
  shows "linelist (l @ x) = l @ linelist x" "linelist_final (l @ x) = l @ linelist_final x"
proof -
  have q: "newline \<notin> set t \<and> hd t \<noteq> CHR 0x60 \<and> \<not> prefix ''[['' (t @ x)"
    if ne: "t \<noteq> []" and su: "suffix t l" for t
  proof -
    have s: "set t \<subseteq> set l" using su by (rule set_mono_suffix)
    obtain y t' where t: "t = y # t'" using ne by (cases t) auto
    with s assms have "y \<noteq> CHR 0x60" "y \<noteq> CHR ''[''" "newline \<notin> set t" by auto
    with t show ?thesis by simp
  qed
  show "linelist (l @ x) = l @ linelist x"
    unfolding linelist_def
    by (rule regex_sub_line) (use q assms(4) in \<open>simp add: raw_quiet(1)\<close>)
  show "linelist_final (l @ x) = l @ linelist_final x"
    unfolding linelist_final_def
    by (rule regex_sub_line) (use q assms(4) in \<open>simp add: raw_quiet(2)\<close>)
qed

lemma plus_greedy_eq:
  assumes "l \<noteq> []" "\<forall>x\<in>set l. P x" "star P c r k \<noteq> None"
  shows "plus P c (l @ r) k = star P c r k"
proof -
  obtain d l' where l: "l = d # l'" using assms(1) by (cases l) auto
  then have "star P c (l' @ r) k = star P c r k"
    using assms(2,3) by (intro star_greedy_eq) simp_all
  then show ?thesis using l assms(2) by (simp add: plus_def)
qed

lemma lit_fail: "\<not> prefix p s \<Longrightarrow> lit p c s k = None"
  by (simp add: lit_prefix)

lemma class_facts:
  "dot (CHR '']'')" "dot (CHR '')'')" "dot (CHR ''('')" "dot (CHR '' '')" "\<not> dot (CHR 0x0A)"
  "\<not> digit (CHR '']'')" "\<not> digit (CHR '' '')" "\<not> space (CHR ''('')"
  by (simp_all add: dot_def digit_def space_def newline_def)


lemma digit_not:
  assumes "digit x"
  shows "x \<noteq> CHR '']''" "x \<noteq> CHR 0x0A" "x \<noteq> CHR ''[''" "x \<noteq> CHR 0x60"
proof -
  have "\<not> digit (CHR '']'')" "\<not> digit (CHR 0x0A)" "\<not> digit (CHR ''['')" "\<not> digit (CHR 0x60)"
    by (simp_all add: digit_def)
  with assms show "x \<noteq> CHR '']''" "x \<noteq> CHR 0x0A" "x \<noteq> CHR ''[''" "x \<noteq> CHR 0x60"
    by blast+
qed

lemma inert_newline: "inert newline"
  by (simp add: inert_def newline_def tab_def bs_def)

lemma ends_line_pass:
  assumes "p \<in> set (passes m)" "ends_line x"
  shows "ends_line (p x)"
proof -
  from assms(1) obtain as l tm where
    p: "p = regex_sub (alts ([fenced, inline] @ as @ [l])) tm"
    and "\<And>a. a \<in> set as \<Longrightarrow> skip_only a" "pure l" "CHR 0x60 \<notin> tmpl_chars tm"
    and i: "\<And>x s. inert x \<Longrightarrow> run (alts ([fenced, inline] @ as @ [l])) (x # s) = None"
    and "\<And>s. run (alts (as @ [l])) (CHR 0x60 # s) = None"
    by (rule passes_form) (rule that, simp_all)
  show ?thesis
  proof (cases x)
    case Nil
    have "p [] = []"
    proof (cases m)
      case RAW
      have "linelist [] = []" "linelist_final [] = []" by code_simp+
      with RAW assms(1) show ?thesis by auto
    next
      case ESCAPED
      have "firstpass [] = []" "secondpass [] = []" "thirdpass [] = []" "fourthpass [] = []"
        "finalpass [] = []" by code_simp+
      with ESCAPED assms(1) show ?thesis by auto
    qed
    with Nil show ?thesis by (simp add: ends_line_def)
  next
    case (Cons y x')
    with assms(2) have y: "y = newline" by (simp add: ends_line_def)
    have "run (alts ([fenced, inline] @ as @ [l])) (newline # x') = None"
      using inert_newline by (rule i)
    then have "p (newline # x') = newline # p x'" unfolding p by (rule sub_none)
    with Cons y show ?thesis by (simp add: ends_line_def)
  qed
qed

lemma expand_relref:
  "c n = Some a \<Longrightarrow> expand (relref [Ref n]) c = directive a"
  "c n = Some a \<Longrightarrow> c n' = Some b
   \<Longrightarrow> expand (relref [Ref n, Txt '' '', Ref n']) c = directive (a @ '' '' @ b)"
  by (simp_all add: relref_def directive_def)

lemma raw_bracket_then_quiet:
  assumes "newline \<notin> set l" "CHR 0x60 \<notin> set l" "CHR ''['' \<notin> set l" "l \<noteq> []" "ends_line x"
  shows "linelist (CHR ''['' # l @ x) = CHR ''['' # l @ linelist x"
    and "linelist_final (CHR ''['' # l @ x) = CHR ''['' # l @ linelist_final x"
proof -
  obtain y l' where l: "l = y # l'" using assms(4) by (cases l) auto
  with assms(3) have y: "CHR ''['' \<noteq> y" by auto
  have 1: "run linelist_pattern (CHR ''['' # l @ x) = None"
    using y l
    by (simp add: run_def linelist_pattern_def fenced_def inline_def indent_or_tab_def
        bare_title_def grp_def tab_def)
  have 2: "run linelist_final_pattern (CHR ''['' # l @ x) = None"
    using y l
    by (simp add: run_def linelist_final_pattern_def fenced_def inline_def indent_def
        numeric_target_def grp_def)
  show "linelist (CHR ''['' # l @ x) = CHR ''['' # l @ linelist x"
    using sub_none[OF 1] raw_quiet_line(1)[OF assms(1,2,3,5)] by (simp add: linelist_def)
  show "linelist_final (CHR ''['' # l @ x) = CHR ''['' # l @ linelist_final x"
    using sub_none[OF 2] raw_quiet_line(2)[OF assms(1,2,3,5)] by (simp add: linelist_final_def)
qed

subsection \<open>Raw mode: a numeric reference with its target\<close>

lemma star_target:
  assumes "newline \<notin> set target" "newline \<notin> set tail" "CHR '')'' \<notin> set tail" "ends_line r"
    and "K (F c (CHR '')'' # tail @ r)) (tail @ r) \<noteq> None"
  shows "star dot c (target @ CHR '')'' # tail @ r)
           (\<lambda>c' s'. ahead (lit '')'') (F c' s') s' (\<lambda>c'' s''. lit '')'' c'' s'' K))
         = K (F c (CHR '')'' # tail @ r)) (tail @ r)"
proof -
  define k where "k = (\<lambda>c' s'. ahead (lit '')'') (F c' s') s' (\<lambda>c'' s''. lit '')'' c'' s'' K))"
  have n: "k c' s' = None" if "\<not> prefix '')'' s'" for c' s'
    unfolding k_def ahead_def using lit_fail[OF that] by simp
  have d: "\<forall>x\<in>set target. dot x" using assms(1) by (simp add: dot_def) blast
  have u: "\<forall>x\<in>set tail. dot x" using assms(2) by (simp add: dot_def) blast
  have e: "r = [] \<or> \<not> dot (hd r)" using assms(4) by (auto simp: ends_line_def dot_def)
  have "\<not> prefix '')'' r" using assms(4) by (auto simp: ends_line_def newline_def prefix_def)
  then have "k c r = None" by (rule n)
  then have "star dot c r k = None" by (simp add: star_stop[where r=r and P=dot, OF e])
  moreover have "star dot c (tail @ r) k = star dot c r k"
  proof (rule star_split[OF u])
    fix t assume t: "t \<noteq> []" "suffix t tail"
    then obtain y t' where y: "t = y # t'" by (cases t) auto
    then have "y \<in> set tail" using set_mono_suffix[OF t(2)] by auto
    with assms(3) have "y \<noteq> CHR '')''" by blast
    then have "\<not> prefix '')'' (t @ r)" using y by simp
    then show "k c (t @ r) = None" by (rule n)
  qed
  ultimately have t0: "star dot c (tail @ r) k = None" by simp
  have k1: "k c (CHR '')'' # tail @ r) = K (F c (CHR '')'' # tail @ r)) (tail @ r)"
    unfolding k_def ahead_def by (simp add: accept_def)
  have s1: "star dot c (CHR '')'' # tail @ r) k = K (F c (CHR '')'' # tail @ r)) (tail @ r)"
    using t0 k1 by (simp add: class_facts)
  have "star dot c (target @ (CHR '')'' # tail @ r)) k = star dot c (CHR '')'' # tail @ r) k"
    by (rule star_greedy_eq[OF d]) (simp only: s1 assms(5) not_False_eq_True)
  with s1 show ?thesis unfolding k_def by simp
qed

lemma numeric_target_at:
  assumes "ident \<noteq> []" "\<forall>x\<in>set ident. digit x" "sp = [] \<or> (\<exists>y. sp = [y] \<and> space y)"
    "newline \<notin> set target" "newline \<notin> set tail" "CHR '')'' \<notin> set tail" "ends_line r"
  shows "\<exists>c. numeric_target Map.empty
               (''[['' @ ident @ '']]'' @ sp @ ''('' @ target @ '')'' @ tail @ r) accept
               = Some (Matched c (tail @ r))
             \<and> c 3 = Some ident \<and> c 5 = Some target"
proof -
  note st = star_target[OF assms(4,5,6,7)]
  from assms(3) show ?thesis
  proof
    assume "sp = []"
    then show ?thesis
      using assms(1,2)
      by (simp add: numeric_target_def grp_def accept_def plus_greedy_eq class_facts st)
  next
    assume "\<exists>y. sp = [y] \<and> space y"
    then obtain y where "sp = [y]" "space y" by auto
    then show ?thesis
      using assms(1,2)
      by (simp add: numeric_target_def grp_def accept_def plus_greedy_eq class_facts st)
  qed
qed

lemma numeric_target_match:
  assumes "ident \<noteq> []" "\<forall>x\<in>set ident. digit x" "sp = [] \<or> (\<exists>y. sp = [y] \<and> space y)"
    "newline \<notin> set target" "ends_line x"
  shows "\<exists>c. run linelist_final_pattern (''[['' @ ident @ '']]'' @ sp @ ''('' @ target @ '')'' @ x)
               = Some (Matched c x)
             \<and> c 3 = Some ident \<and> c 5 = Some target"
proof -
  have n: "newline \<notin> set []" "CHR '')'' \<notin> set []" by simp_all
  from numeric_target_at[OF assms(1-4) n assms(5)] obtain c where
    c: "numeric_target Map.empty (''[['' @ ident @ '']]'' @ sp @ ''('' @ target @ '')'' @ x) accept
          = Some (Matched c x)" "c 3 = Some ident" "c 5 = Some target"
    by auto
  have "run linelist_final_pattern (''[['' @ ident @ '']]'' @ sp @ ''('' @ target @ '')'' @ x)
      = Some (Matched c x)"
    using c(1)
    by (simp add: run_def linelist_final_pattern_def fenced_def inline_def indent_def grp_def)
  with c(2,3) show ?thesis by blast
qed

subsection \<open>Raw mode: indented lines\<close>

lemma protected_line:
  assumes "newline \<notin> set l" "ends_line r"
  shows "linelist (tab # l @ r) = tab # l @ linelist r"
    and "linelist (''    '' @ l @ r) = ''    '' @ l @ linelist r"
    and "linelist_final (''    '' @ l @ r) = ''    '' @ l @ linelist_final r"
proof -
  note e = star_to_eol[OF assms]
  have 1: "run linelist_pattern ((tab # l) @ r) = Some (Skipped r)"
    using e
    by (simp add: run_def linelist_pattern_def fenced_def inline_def indent_or_tab_def
        grp_def skip_def fail_def tab_def)
  have 2: "run linelist_pattern ((''    '' @ l) @ r) = Some (Skipped r)"
    using e
    by (simp add: run_def linelist_pattern_def fenced_def inline_def indent_or_tab_def
        grp_def skip_def fail_def tab_def)
  have 3: "run linelist_final_pattern ((''    '' @ l) @ r) = Some (Skipped r)"
    using e
    by (simp add: run_def linelist_final_pattern_def fenced_def inline_def indent_def
        grp_def skip_def fail_def)
  show "linelist (tab # l @ r) = tab # l @ linelist r"
    using sub_skip[OF 1] by (simp add: linelist_def)
  show "linelist (''    '' @ l @ r) = ''    '' @ l @ linelist r"
    using sub_skip[OF 2] by (simp add: linelist_def)
  show "linelist_final (''    '' @ l @ r) = ''    '' @ l @ linelist_final r"
    using sub_skip[OF 3] by (simp add: linelist_final_def)
qed

lemma tab_second_pass: "linelist_final (tab # s) = tab # linelist_final s"
proof -
  have "run linelist_final_pattern (tab # s) = None"
    by (simp add: run_def linelist_final_pattern_def fenced_def inline_def indent_def
        numeric_target_def grp_def tab_def)
  then show ?thesis unfolding linelist_final_def by (rule sub_none)
qed

lemma tab_numeric_target:
  assumes "ident \<noteq> []" "\<forall>x\<in>set ident. digit x"
    "sp = [] \<or> (\<exists>y. sp = [y] \<and> space y \<and> y \<noteq> newline)"
    "newline \<notin> set target" "ends_line r"
  shows "rewrite (tab # ''[['' @ ident @ '']]'' @ sp @ ''('' @ target @ '')'' @ r) RAW
         = tab # directive (ident @ '' '' @ target) @ rewrite r RAW"
proof -
  have sp: "sp = [] \<or> (\<exists>y. sp = [y] \<and> space y)" using assms(3) by blast
  have sq: "newline \<notin> set sp"
    using assms(3)
  proof
    assume "sp = []"
    then show ?thesis by simp
  next
    assume "\<exists>y. sp = [y] \<and> space y \<and> y \<noteq> newline"
    then obtain y where "sp = [y]" "y \<noteq> newline" by blast
    then show ?thesis by simp
  qed
  have iq: "newline \<notin> set ident"
  proof
    assume "newline \<in> set ident"
    with assms(2) have "digit newline" by blast
    from digit_not(2)[OF this] show False by (simp add: newline_def)
  qed
  let ?l = "''[['' @ ident @ '']]'' @ sp @ ''('' @ target @ '')''"
  have "newline \<notin> set ?l" using sq iq assms(4) by (simp add: newline_def)
  from protected_line(1)[OF this assms(5)]
  have 1: "linelist (tab # ?l @ r) = tab # ?l @ linelist r" .
  have e: "ends_line (linelist r)"
    by (rule ends_line_pass[of _ RAW]) (simp_all add: assms(5))
  from numeric_target_match[OF assms(1,2) sp assms(4) e] obtain c where
    c: "run linelist_final_pattern (''[['' @ ident @ '']]'' @ sp @ ''('' @ target @ '')'' @ linelist r)
          = Some (Matched c (linelist r))" "c 3 = Some ident" "c 5 = Some target" by blast
  from c(1) have "run linelist_final_pattern (?l @ linelist r) = Some (Matched c (linelist r))"
    by simp
  then have "regex_sub linelist_final_pattern (relref [Ref 3, Txt '' '', Ref 5]) (?l @ linelist r)
      = expand (relref [Ref 3, Txt '' '', Ref 5]) c
        @ regex_sub linelist_final_pattern (relref [Ref 3, Txt '' '', Ref 5]) (linelist r)"
    by (rule sub_match) simp
  then have "linelist_final (?l @ linelist r)
      = directive (ident @ '' '' @ target) @ linelist_final (linelist r)"
    using expand_relref(2)[where c=c and n=3 and n'=5, OF c(2,3)] by (simp add: linelist_final_def)
  then have "linelist_final (tab # ?l @ linelist r)
      = tab # directive (ident @ '' '' @ target) @ linelist_final (linelist r)"
    by (simp add: tab_second_pass)
  then show ?thesis using 1 by (simp add: rewriter_text_def)
qed

lemma tab_bare_title:
  assumes "title \<noteq> []" "\<not> digit (hd title)" "newline \<notin> set title"
    "CHR ''['' \<notin> set title" "CHR 0x60 \<notin> set title" "ends_line r"
  shows "rewrite (tab # ''[['' @ title @ '']]'' @ r) RAW = tab # ''[['' @ title @ '']]'' @ rewrite r RAW"
proof -
  let ?l = "''[['' @ title @ '']]''"
  have "newline \<notin> set ?l" using assms(3) by (simp add: newline_def)
  from protected_line(1)[OF this assms(6)]
  have 1: "linelist (tab # ?l @ r) = tab # ?l @ linelist r" .
  have e: "ends_line (linelist r)"
    by (rule ends_line_pass[of _ RAW]) (simp_all add: assms(6))
  obtain y t' where t: "title = y # t'" using assms(1) by (cases title) auto
  with assms(2) have y: "\<not> digit y" by simp
  have "run linelist_final_pattern (CHR ''['' # CHR ''['' # title @ '']]'' @ linelist r) = None"
    using t y
    by (simp add: run_def linelist_final_pattern_def fenced_def inline_def indent_def
        numeric_target_def grp_def plus_def)
  then have 2: "linelist_final (CHR ''['' # CHR ''['' # title @ '']]'' @ linelist r)
      = CHR ''['' # linelist_final (CHR ''['' # title @ '']]'' @ linelist r)"
    unfolding linelist_final_def by (rule sub_none)
  have q: "newline \<notin> set (title @ '']]'')" "CHR 0x60 \<notin> set (title @ '']]'')"
    "CHR ''['' \<notin> set (title @ '']]'')" "title @ '']]'' \<noteq> []"
    using assms(3,4,5) by (simp_all add: newline_def)
  from raw_bracket_then_quiet(2)[OF q e]
  have "linelist_final (CHR ''['' # (title @ '']]'') @ linelist r)
      = CHR ''['' # (title @ '']]'') @ linelist_final (linelist r)" .
  with 2 have "linelist_final (tab # ?l @ linelist r) = tab # ?l @ linelist_final (linelist r)"
    by (simp add: tab_second_pass)
  then show ?thesis using 1 by (simp add: rewriter_text_def)
qed

subsection \<open>Directives are left alone\<close>










subsection \<open>Every match and every skip consumes text\<close>

lemma eatsI:
  "(\<And>c s k res. a c s k = Some res \<Longrightarrow>
      (\<exists>r. res = Skipped r \<and> strict_suffix r s)
      \<or> (\<exists>c' s'. strict_suffix s' s \<and> k c' s' = Some res)) \<Longrightarrow> eats a"
  unfolding eats_def by (intro allI impI)

lemma eatsD:
  "eats a \<Longrightarrow> a c s k = Some res \<Longrightarrow>
      (\<exists>r. res = Skipped r \<and> strict_suffix r s)
      \<or> (\<exists>c' s'. strict_suffix s' s \<and> k c' s' = Some res)"
  unfolding eats_def by (elim allE impE) assumption

lemma eats_lit:
  assumes "p \<noteq> []"
  shows "eats (lit p)"
proof (rule eatsI)
  fix c s k res assume h: "lit p c s k = Some res"
  then have p: "prefix p s" and k: "k c (drop (length p) s) = Some res"
    by (simp_all add: lit_prefix split: if_splits)
  from p obtain t where "s = p @ t" by (auto simp: prefix_def)
  then have "strict_suffix (drop (length p) s) s"
    using assms by (simp add: strict_suffix_def suffix_def)
  with k have "strict_suffix (drop (length p) s) s \<and> k c (drop (length p) s) = Some res"
    by simp
  then show "(\<exists>r. res = Skipped r \<and> strict_suffix r s)
      \<or> (\<exists>c' s'. strict_suffix s' s \<and> k c' s' = Some res)"
    by blast
qed

lemma eats_alts: "(\<And>a. a \<in> set as \<Longrightarrow> eats a) \<Longrightarrow> eats (alts as)"
proof (induction as)
  case Nil
  show ?case by (rule eatsI) simp
next
  case (Cons a as)
  have a: "eats a" and r: "eats (alts as)" using Cons by simp_all
  show ?case
  proof (rule eatsI)
    fix c s k res assume h: "alts (a # as) c s k = Some res"
    show "(\<exists>r. res = Skipped r \<and> strict_suffix r s)
      \<or> (\<exists>c' s'. strict_suffix s' s \<and> k c' s' = Some res)"
    proof (cases "a c s k")
      case None
      with h have "alts as c s k = Some res" by simp
      then show ?thesis by (rule eatsD[OF r])
    next
      case (Some r')
      with h have "a c s k = Some res" by simp
      then show ?thesis by (rule eatsD[OF a])
    qed
  qed
qed

lemma eats_grp:
  assumes "eats a"
  shows "eats (grp n a)"
proof (rule eatsI)
  fix c s k res assume "grp n a c s k = Some res"
  then have "a c s (\<lambda>c' s'. k (c'(n \<mapsto> take (length s - length s') s)) s') = Some res"
    by (simp add: grp_def)
  from eatsD[OF assms this]
  show "(\<exists>r. res = Skipped r \<and> strict_suffix r s)
      \<or> (\<exists>c' s'. strict_suffix s' s \<and> k c' s' = Some res)"
  proof
    assume "\<exists>r. res = Skipped r \<and> strict_suffix r s"
    then show ?thesis by (rule disjI1)
  next
    assume "\<exists>c' s'. strict_suffix s' s
              \<and> k (c'(n \<mapsto> take (length s - length s') s)) s' = Some res"
    then obtain c' s' where "strict_suffix s' s
      \<and> k (c'(n \<mapsto> take (length s - length s') s)) s' = Some res" by blast
    then show ?thesis by blast
  qed
qed

lemma strict_suffix_trans: "suffix r s' \<Longrightarrow> strict_suffix s' s \<Longrightarrow> strict_suffix r s"
  by (meson suffix_order.le_less_trans)

lemma eats_seqs_pure:
  assumes "eats a" "pure (seqs as)"
  shows "eats (seqs (a # as))"
proof (rule eatsI)
  fix c s k res assume "seqs (a # as) c s k = Some res"
  then have "a c s (\<lambda>c' s'. seqs as c' s' k) = Some res" by simp
  from eatsD[OF assms(1) this]
  show "(\<exists>r. res = Skipped r \<and> strict_suffix r s)
      \<or> (\<exists>c' s'. strict_suffix s' s \<and> k c' s' = Some res)"
  proof
    assume "\<exists>r. res = Skipped r \<and> strict_suffix r s"
    then show ?thesis by (rule disjI1)
  next
    assume "\<exists>c' s'. strict_suffix s' s \<and> seqs as c' s' k = Some res"
    then obtain c' s' where 1: "strict_suffix s' s" "seqs as c' s' k = Some res" by blast
    from pureE[OF assms(2) 1(2)] obtain c2 s2 where
      2: "suffix s2 s'" "keeps s' c' c2" "k c2 s2 = Some res" .
    from strict_suffix_trans[OF 2(1) 1(1)] 2(3)
    have "strict_suffix s2 s \<and> k c2 s2 = Some res" by simp
    then show ?thesis by blast
  qed
qed

lemma eats_seqs_skip:
  assumes "eats a" "skip_only (seqs as)"
  shows "eats (seqs (a # as))"
proof (rule eatsI)
  fix c s k res assume "seqs (a # as) c s k = Some res"
  then have "a c s (\<lambda>c' s'. seqs as c' s' k) = Some res" by simp
  from eatsD[OF assms(1) this]
  show "(\<exists>r. res = Skipped r \<and> strict_suffix r s)
      \<or> (\<exists>c' s'. strict_suffix s' s \<and> k c' s' = Some res)"
  proof
    assume "\<exists>r. res = Skipped r \<and> strict_suffix r s"
    then show ?thesis by (rule disjI1)
  next
    assume "\<exists>c' s'. strict_suffix s' s \<and> seqs as c' s' k = Some res"
    then obtain c' s' where 1: "strict_suffix s' s" "seqs as c' s' k = Some res" by blast
    from skip_onlyD[OF assms(2) 1(2)] obtain r where r: "res = Skipped r" "suffix r s'" by blast
    from strict_suffix_trans[OF r(2) 1(1)] r(1)
    have "res = Skipped r \<and> strict_suffix r s" by simp
    then show ?thesis by blast
  qed
qed

lemma eats_run:
  assumes "eats a" "run a s = Some res"
  shows "(\<exists>r. res = Skipped r \<and> length r < length s)
       \<or> (\<exists>c r. res = Matched c r \<and> length r < length s)"
proof -
  from eatsD[OF assms(1) assms(2)[unfolded run_def]]
  show ?thesis
  proof
    assume "\<exists>r. res = Skipped r \<and> strict_suffix r s"
    then obtain r where "res = Skipped r" "strict_suffix r s" by blast
    then have "res = Skipped r \<and> length r < length s"
      by (auto simp: strict_suffix_def suffix_def)
    then show ?thesis by blast
  next
    assume "\<exists>c' s'. strict_suffix s' s \<and> accept c' s' = Some res"
    then obtain c' s' where "strict_suffix s' s" "accept c' s' = Some res" by blast
    then have "res = Matched c' s' \<and> length s' < length s"
      by (auto simp: strict_suffix_def suffix_def accept_def)
    then show ?thesis by blast
  qed
qed

lemma eats_code: "eats fenced" "eats inline" "eats indent_or_tab" "eats indent"
proof -
  have "skip_only (seqs ([star_lazy any, lit ''```''] @ [skip, fail]))"
    by (rule skip_only_seqs) (auto simp: pure_lit pure_star_lazy)
  then show "eats fenced"
    unfolding fenced_def by (intro eats_seqs_skip eats_lit) simp_all
  have "skip_only (seqs ([star_lazy any, lit ''`''] @ [skip, fail]))"
    by (rule skip_only_seqs) (auto simp: pure_lit pure_star_lazy)
  then show "eats inline"
    unfolding inline_def by (intro eats_seqs_skip eats_lit) simp_all
  have s: "skip_only (seqs ([star dot] @ [skip, fail]))"
    by (rule skip_only_seqs) (auto simp: pure_star)
  have "eats (grp 1 (alts [lit ''    '', lit [tab]]))"
    by (intro eats_grp eats_alts) (auto simp: eats_lit)
  then show "eats indent_or_tab"
    unfolding indent_or_tab_def using s by (intro eats_seqs_skip) simp_all
  have "eats (grp 1 (lit ''    ''))"
    by (intro eats_grp eats_lit) simp
  then show "eats indent"
    unfolding indent_def using s by (intro eats_seqs_skip) simp_all
qed

lemma eats_links:
  "eats bare_title" "eats numeric_target" "eats esc_bare_title" "eats numeric_bracket"
  "eats percent_space" "eats link_target" "eats esc_numeric_target"
proof -
  show "eats bare_title"
    unfolding bare_title_def
    by (intro eats_grp eats_seqs_pure eats_lit pure_seqs)
       (auto simp: pure_lit pure_star pure_not_ahead intro!: pure_grp)
  show "eats numeric_target"
    unfolding numeric_target_def
    by (intro eats_grp eats_seqs_pure eats_lit pure_seqs)
       (auto simp: pure_lit pure_star pure_plus pure_ahead pure_paren intro!: pure_grp)
  show "eats esc_bare_title"
    unfolding esc_bare_title_def
    by (intro eats_grp eats_seqs_pure eats_lit pure_seqs)
       (auto simp: pure_lit pure_star pure_not_ahead intro!: pure_grp)
  show "eats numeric_bracket"
    unfolding numeric_bracket_def
    by (intro eats_grp eats_seqs_pure eats_lit pure_seqs)
       (auto simp: pure_lit pure_plus intro!: pure_grp)
  show "eats percent_space"
    unfolding percent_space_def
    by (intro eats_grp eats_seqs_pure eats_lit pure_seqs)
       (auto simp: pure_lit pure_plus pure_ahead)
  show "eats link_target"
    unfolding link_target_def
    by (intro eats_grp eats_seqs_pure eats_lit pure_seqs)
       (auto simp: pure_lit pure_star pure_plus pure_ahead intro!: pure_grp)
  show "eats esc_numeric_target"
    unfolding esc_numeric_target_def
    by (intro eats_grp eats_seqs_pure eats_lit pure_seqs)
       (auto simp: pure_lit pure_star pure_plus pure_paren intro!: pure_grp)
qed

lemma pattern_progress:
  assumes "a \<in> {linelist_pattern, linelist_final_pattern, firstpass_pattern, secondpass_pattern,
                thirdpass_pattern, fourthpass_pattern, finalpass_pattern}"
    and "run a s = Some res"
  shows "(\<exists>r. res = Skipped r \<and> length r < length s)
       \<or> (\<exists>c r. res = Matched c r \<and> length r < length s)"
proof -
  have "eats a"
    using assms(1)
    unfolding linelist_pattern_def linelist_final_pattern_def firstpass_pattern_def
      secondpass_pattern_def thirdpass_pattern_def fourthpass_pattern_def finalpass_pattern_def
    by (auto intro!: eats_alts simp: eats_code eats_links)
  then show ?thesis using assms(2) by (rule eats_run)
qed

subsection \<open>Where the scan goes\<close>

lemma rules_eats:
  assumes "(a, t) \<in> set (rules m)"
  shows "eats a"
proof -
  have "a \<in> {linelist_pattern, linelist_final_pattern, firstpass_pattern, secondpass_pattern,
                thirdpass_pattern, fourthpass_pattern, finalpass_pattern}"
    using assms by (cases m) auto
  then show ?thesis
    unfolding linelist_pattern_def linelist_final_pattern_def firstpass_pattern_def
      secondpass_pattern_def thirdpass_pattern_def fourthpass_pattern_def finalpass_pattern_def
    by (auto intro!: eats_alts simp: eats_code eats_links)
qed

lemma eats_suffix:
  assumes "eats a"
  shows "run a s = Some (Matched c r) \<Longrightarrow> strict_suffix r s"
    and "run a s = Some (Skipped r) \<Longrightarrow> strict_suffix r s"
proof -
  show "strict_suffix r s" if "run a s = Some (Matched c r)"
    using eatsD[OF assms that[unfolded run_def]] by (auto simp: accept_def)
  show "strict_suffix r s" if "run a s = Some (Skipped r)"
    using eatsD[OF assms that[unfolded run_def]] by (auto simp: accept_def)
qed

lemma split_at:
  assumes "suffix r (l @ s)" "length s \<le> length r"
  shows "r = take (length r - length s) r @ s" "suffix (take (length r - length s) r) l"
proof -
  have "suffix s (l @ s)" by (rule suffixI) simp
  from this assms have "suffix s r" by (rule suffix_length_suffix)
  then obtain p where p: "r = p @ s" by (auto simp: suffix_def)
  then show "r = take (length r - length s) r @ s" by simp
  from assms(1) p have "suffix (p @ s) (l @ s)" by simp
  then have "suffix p l" by simp
  then show "suffix (take (length r - length s) r) l" using p by simp
qed

lemma over_frame:
  assumes "eats a" "\<And>r. regex_sub a t (span @ r) = span @ regex_sub a t r"
    and "over a t l span s = Some (ol, os)"
  shows "regex_sub a t (l @ span @ s) = ol @ span @ os"
  using assms(3)
proof (induction "length l" arbitrary: l ol rule: less_induct)
  case less
  show ?case
  proof (cases l)
    case Nil
    with less.prems show ?thesis by (simp add: assms(2))
  next
    case (Cons x l0)
    let ?in = "x # l0 @ span @ s"
    show ?thesis
    proof (cases "run a ?in")
      case None
      with less.prems Cons obtain o' where o': "over a t l0 span s = Some (o', os)" "ol = x # o'"
        by auto
      have "regex_sub a t (l0 @ span @ s) = o' @ span @ os"
        using o'(1) by (intro less.hyps) (simp add: Cons)
      then show ?thesis using None o'(2) Cons by (simp add: sub_none)
    next
      case (Some res)
      show ?thesis
      proof (cases res)
        case (Matched c r)
        let ?l' = "take (length r - length (span @ s)) r"
        from less.prems Cons Some Matched
        have len: "length (span @ s) \<le> length r" "length r < length ?in"
          by (auto split: if_splits)
        with less.prems Cons Some Matched obtain o' where
          o': "over a t ?l' span s = Some (o', os)" "ol = expand t c @ o'"
          by auto
        have su: "suffix r ((x # l0) @ (span @ s))"
          using eats_suffix(1)[OF assms(1)] Some Matched by (auto simp: strict_suffix_def)
        note sp = split_at[OF su len(1)]
        have "length ?l' < length l" using len Cons by simp
        from less.hyps[OF this o'(1)]
        have "regex_sub a t r = o' @ span @ os" using sp(1) by simp
        moreover have "regex_sub a t ?in = expand t c @ regex_sub a t r"
          using Some Matched len(2) by (subst regex_sub.simps) simp
        ultimately show ?thesis using o'(2) Cons by simp
      next
        case (Skipped r)
        let ?l' = "take (length r - length (span @ s)) r"
        have su: "suffix r ((x # l0) @ (span @ s))"
          using eats_suffix(2)[OF assms(1)] Some Skipped by (auto simp: strict_suffix_def)
        have lt: "length r < length ?in"
        proof -
          from eats_suffix(2)[OF assms(1)] Some Skipped have "strict_suffix r ?in" by simp
          then obtain zs where "?in = zs @ r" "zs \<noteq> []"
            by (auto simp: strict_suffix_def suffix_def)
          then have "length ?in = length zs + length r" "0 < length zs"
            by (metis length_append, simp)
          then show ?thesis by linarith
        qed
        have sub: "regex_sub a t ?in = take (length ?in - length r) ?in @ regex_sub a t r"
          using Some Skipped lt by (subst regex_sub.simps) simp
        show ?thesis
        proof (cases "length (span @ s) \<le> length r")
          case True
          with less.prems Cons Some Skipped lt obtain o' where
            o': "over a t ?l' span s = Some (o', os)"
            "ol = take (length ?in - length r) ?in @ o'"
            by auto
          note sp = split_at[OF su True]
          have "length ?l' < length l" using lt Cons by simp
          from less.hyps[OF this o'(1)]
          have "regex_sub a t r = o' @ span @ os" using sp(1) by simp
          with sub show ?thesis using o'(2) Cons by simp
        next
          case False
          with less.prems Cons Some Skipped
          have len: "length r \<le> length s"
            and o: "ol = x # l0" "os = take (length s - length r) s @ regex_sub a t r"
            by (auto split: if_splits)
          have "suffix s ((x # l0) @ (span @ s))" by (rule suffixI) simp
          from suffix_length_suffix[OF su this len] obtain p where p: "s = p @ r"
            by (auto simp: suffix_def)
          then have "take (length ?in - length r) ?in = x # l0 @ span @ p" by simp
          with sub o p Cons show ?thesis by simp
        qed
      qed
    qed
  qed
qed

lemma through_frame:
  assumes "\<And>a t. (a, t) \<in> set ps \<Longrightarrow> eats a"
    and "\<And>a t r. (a, t) \<in> set ps \<Longrightarrow> regex_sub a t (span @ r) = span @ regex_sub a t r"
    and "through ps lead span rest = Some (lead', rest')"
  shows "fold (\<lambda>(a, t). regex_sub a t) ps (lead @ span @ rest) = lead' @ span @ rest'"
  using assms
proof (induction ps arbitrary: lead rest)
  case Nil
  then show ?case by simp
next
  case (Cons p ps)
  obtain a t where p: "p = (a, t)" by (cases p)
  from Cons.prems(3) p obtain l1 r1 where
    l1: "over a t lead span rest = Some (l1, r1)" "through ps l1 span r1 = Some (lead', rest')"
    by (auto split: option.splits)
  have m: "(a, t) \<in> set (p # ps)" by (simp add: p)
  have 1: "regex_sub a t (lead @ span @ rest) = l1 @ span @ r1"
    using Cons.prems(1)[OF m] Cons.prems(2)[OF m] l1(1) by (rule over_frame)
  have "fold (\<lambda>(a, t). regex_sub a t) ps (l1 @ span @ r1) = lead' @ span @ rest'"
  proof (rule Cons.IH[OF _ _ l1(2)])
    fix a' t' assume "(a', t') \<in> set ps"
    then have m': "(a', t') \<in> set (p # ps)" by simp
    show "eats a'" by (rule Cons.prems(1)[OF m'])
    show "regex_sub a' t' (span @ r) = span @ regex_sub a' t' r" for r
      by (rule Cons.prems(2)[OF m'])
  qed
  then show ?case using 1 p by simp
qed

subsection \<open>A code span that stays whole\<close>

lemma prefix_take_app:
  assumes "prefix p (t @ u)" "length p \<le> length t + n"
  shows "prefix p (t @ take n u)"
proof -
  from assms(1) obtain q where q: "t @ u = p @ q" by (auto simp: prefix_def)
  then have "p = take (length p) (t @ u)" by simp
  also have "\<dots> = take (length p) (t @ take n u)" using assms(2) by (simp add: min_absorb1)
  finally have "p = take (length p) (t @ take n u)" .
  then show ?thesis by (metis take_is_prefix)
qed

lemma fenced_block:
  assumes "\<not> sublist ''```'' (body @ ''``'')"
  shows "fenced c (''```'' @ body @ ''```'' @ rest) k = Some (Skipped rest)"
proof -
  let ?K = "\<lambda>c' s'. seqs [lit ''```'', skip, fail] c' s' k"
  have "star_lazy any c (body @ ''```'' @ rest) ?K = star_lazy any c (''```'' @ rest) ?K"
  proof (rule star_lazy_pass)
    show "\<forall>x\<in>set body. any x" by (simp add: any_def)
    fix t assume t: "t \<noteq> []" "suffix t body"
    have "\<not> prefix ''```'' (t @ ''```'' @ rest)"
    proof
      assume "prefix ''```'' (t @ ''```'' @ rest)"
      moreover have "length ''```'' \<le> length t + 2" using t(1) by (cases t) simp_all
      ultimately have "prefix ''```'' (t @ take 2 (''```'' @ rest))" by (rule prefix_take_app)
      then have "prefix ''```'' (t @ ''``'')" by simp
      moreover have "suffix (t @ ''``'') (body @ ''``'')" using t(2) by simp
      ultimately have "sublist ''```'' (body @ ''``'')" unfolding sublist_altdef' by blast
      with assms show False ..
    qed
    then have "lit ''```'' c (t @ ''```'' @ rest) k' = None" for k' by (rule lit_fail)
    then show "?K c (t @ ''```'' @ rest) = None" by simp
  qed
  moreover have "star_lazy any c (''```'' @ rest) ?K = Some (Skipped rest)"
    by (rule star_lazy_here) (simp add: skip_def fail_def)
  ultimately show ?thesis by (simp add: fenced_def)
qed

lemma rules_shape:
  assumes "(a, t) \<in> set (rules m)"
  obtains as where "a = alts (fenced # inline # as)"
  using assms
  by (cases m)
    (auto simp: linelist_pattern_def linelist_final_pattern_def firstpass_pattern_def
      secondpass_pattern_def thirdpass_pattern_def fourthpass_pattern_def finalpass_pattern_def)

lemma rule_skips:
  assumes "(a, t) \<in> set (rules m)"
    and "span = ''```'' @ body @ ''```'' \<and> \<not> sublist ''```'' (body @ ''``'')
         \<or> span = ''`'' @ body @ ''`'' \<and> body \<noteq> [] \<and> CHR 0x60 \<notin> set body"
  shows "run a (span @ r) = Some (Skipped r)"
proof -
  from assms(1) obtain as where a: "a = alts (fenced # inline # as)" by (rule rules_shape)
  from assms(2) show ?thesis
  proof
    assume f: "span = ''```'' @ body @ ''```'' \<and> \<not> sublist ''```'' (body @ ''``'')"
    then show ?thesis
      using fenced_block[of body Map.empty r accept] by (simp add: a run_def)
  next
    assume i: "span = ''`'' @ body @ ''`'' \<and> body \<noteq> [] \<and> CHR 0x60 \<notin> set body"
    then have "run (alts (fenced # inline # as)) (''`'' @ body @ ''`'' @ r) = Some (Skipped r)"
      by (intro run_inline) simp_all
    then show ?thesis using i by (simp add: a)
  qed
qed

lemma rule_span:
  assumes "(a, t) \<in> set (rules m)"
    and "span = ''```'' @ body @ ''```'' \<and> \<not> sublist ''```'' (body @ ''``'')
         \<or> span = ''`'' @ body @ ''`'' \<and> body \<noteq> [] \<and> CHR 0x60 \<notin> set body"
  shows "regex_sub a t (span @ r) = span @ regex_sub a t r"
proof (rule sub_skip)
  show "run a (span @ r) = Some (Skipped r)" using assms by (rule rule_skips)
  show "span \<noteq> []" using assms(2) by auto
qed

lemma rewrite_rules: "rewrite text m = fold (\<lambda>(a, t). regex_sub a t) (rules m) text"
  by (cases m)
    (simp_all add: rewriter_text_def postmaker_text_def linelist_def linelist_final_def
      firstpass_def secondpass_def thirdpass_def fourthpass_def finalpass_def)

lemma code_span_whole:
  assumes "span = ''```'' @ body @ ''```'' \<and> \<not> sublist ''```'' (body @ ''``'')
         \<or> span = ''`'' @ body @ ''`'' \<and> body \<noteq> [] \<and> CHR 0x60 \<notin> set body"
  shows "(a, t) \<in> set (rules m) \<Longrightarrow> over a t lead span rest = Some (ol, os)
         \<Longrightarrow> regex_sub a t (lead @ span @ rest) = ol @ span @ os"
    and "through (rules m) lead span rest = Some (lead', rest')
         \<Longrightarrow> rewrite (lead @ span @ rest) m = lead' @ span @ rest'"
proof -
  show "regex_sub a t (lead @ span @ rest) = ol @ span @ os"
    if r: "(a, t) \<in> set (rules m)" and u: "over a t lead span rest = Some (ol, os)"
    using rules_eats[OF r] rule_span[OF r assms] u by (rule over_frame)
  show "rewrite (lead @ span @ rest) m = lead' @ span @ rest'"
    if th: "through (rules m) lead span rest = Some (lead', rest')"
  proof -
    have "fold (\<lambda>(a, t). regex_sub a t) (rules m) (lead @ span @ rest) = lead' @ span @ rest'"
    proof (rule through_frame[OF _ _ th])
      fix a t assume r: "(a, t) \<in> set (rules m)"
      show "eats a" using r by (rule rules_eats)
      show "regex_sub a t (span @ r') = span @ regex_sub a t r'" for r'
        using r assms by (rule rule_span)
    qed
    then show ?thesis by (simp add: rewrite_rules)
  qed
qed

subsection \<open>Texts in which no pattern occurs, texts in which no match is found\<close>

lemma occurs_suffix: "\<not> occurs a s \<Longrightarrow> suffix t s \<Longrightarrow> run a t = None"
proof (induction s)
  case Nil
  then show ?case by (simp split: option.splits)
next
  case (Cons x s)
  from Cons.prems(2) consider "t = x # s" | "suffix t s" by (auto simp: suffix_Cons)
  then show ?case
  proof cases
    case 1
    with Cons.prems(1) show ?thesis by (simp split: option.splits)
  next
    case 2
    moreover from Cons.prems(1) have "\<not> occurs a s" by (simp split: option.splits)
    ultimately show ?thesis by (intro Cons.IH)
  qed
qed

lemma scan_id_occurs:
  assumes "\<And>a. a \<in> set ps \<Longrightarrow> skip_only a" "\<not> occurs l s"
  shows "regex_sub (alts (ps @ [l])) tm s = s"
proof (rule scan_id[OF assms(1)])
  fix t assume "suffix t s"
  with assms(2) have "run l t = None" by (rule occurs_suffix)
  then show "l Map.empty t accept = None" by (simp add: run_def)
qed

lemma no_link_lemma:
  assumes "\<forall>l\<in>set (links m). \<not> occurs l text"
  shows "(\<forall>p\<in>set (passes m). p text = text) \<and> rewrite text m = text"
proof (cases m)
  case RAW
  with assms have o: "\<not> occurs bare_title text" "\<not> occurs numeric_target text" by simp_all
  have "linelist text = text"
    unfolding linelist_def pattern_alts by (rule scan_id_occurs[OF skip_only_raw1 o(1)])
  moreover have "linelist_final text = text"
    unfolding linelist_final_def pattern_alts by (rule scan_id_occurs[OF skip_only_raw2 o(2)])
  ultimately show ?thesis using RAW by (simp add: rewriter_text_def)
next
  case ESCAPED
  with assms have o: "\<not> occurs esc_bare_title text" "\<not> occurs numeric_bracket text"
    "\<not> occurs percent_space text" "\<not> occurs link_target text"
    "\<not> occurs esc_numeric_target text" by simp_all
  have "firstpass text = text"
    unfolding firstpass_def pattern_alts by (rule scan_id_occurs[OF skip_only_esc o(1)])
  moreover have "secondpass text = text"
    unfolding secondpass_def pattern_alts by (rule scan_id_occurs[OF skip_only_esc o(2)])
  moreover have "thirdpass text = text"
    unfolding thirdpass_def pattern_alts by (rule scan_id_occurs[OF skip_only_esc o(3)])
  moreover have "fourthpass text = text"
    unfolding fourthpass_def pattern_alts by (rule scan_id_occurs[OF skip_only_esc o(4)])
  moreover have "finalpass text = text"
    unfolding finalpass_def pattern_alts by (rule scan_id_occurs[OF skip_only_esc o(5)])
  ultimately show ?thesis using ESCAPED by (simp add: postmaker_text_def)
qed



section \<open>The claims\<close>

text \<open>
  C1 (as amended). In both modes and in every pass: standing at the opening delimiter of
  a code span, the pass skips the span and nothing more (first conjunct). Hence a code
  span is copied verbatim, whatever would-be link patterns it holds, whenever nothing
  that begins before the span cuts into it: when the scan comes to stand at its opening
  delimiter, and when a skip that begins before the span (an indented line in raw mode)
  runs over all of it. This is \<open>over\<close> for one pass and \<open>through\<close> for the pipeline;
  \<open>rewrite\<close> then gives what the passes make of the text before the span, the span as it
  is, and what they make of the text after it. The span is a fenced block: three
  backticks, a body and three backticks, where the body, even together with the first
  two backticks of the closing fence, holds no three backticks in a row; or an inline
  span: one backtick, a body that is not empty and holds no backtick, and one backtick.
  The claim as stated fails where a match that begins before the span runs into it, and
  where a skip that begins before the span ends inside it: see the counterexample.
\<close>

theorem C1_code_span_stays_whole:
  assumes "span = ''```'' @ body @ ''```'' \<and> \<not> sublist ''```'' (body @ ''``'')
         \<or> span = ''`'' @ body @ ''`'' \<and> body \<noteq> [] \<and> CHR 0x60 \<notin> set body"
  shows "(\<forall>(a, t)\<in>set (rules m). \<forall>rest. run a (span @ rest) = Some (Skipped rest))
       \<and> (\<forall>(a, t)\<in>set (rules m). \<forall>lead rest ol os.
            over a t lead span rest = Some (ol, os)
            \<longrightarrow> regex_sub a t (lead @ span @ rest) = ol @ span @ os)
       \<and> (\<forall>lead rest lead' rest'.
            through (rules m) lead span rest = Some (lead', rest')
            \<longrightarrow> rewrite (lead @ span @ rest) m = lead' @ span @ rest')"
  using rule_skips[OF _ assms] code_span_whole[OF assms] by (auto simp del: rewrite.simps)

theorem C1_witness:
  \<open>rewrite ''see `[[Foo]]` here'' RAW = ''see `[[Foo]]` here''
   \<and> rewrite (''see `'' @ esc_open @ ''Foo'' @ esc_close @ ''` here'') ESCAPED
     = ''see `'' @ esc_open @ ''Foo'' @ esc_close @ ''` here''
   \<and> rewrite (''```'' @ newline # ''echo `date [[Foo]]'' @ newline # ''```'') RAW
     = ''```'' @ newline # ''echo `date [[Foo]]'' @ newline # ''```''
   \<and> rewrite (''[[A]]'' @ newline # ''`[[B]]` [[C]]'') RAW
     = ''[A]({{< relref "A.md" >}})'' @ newline # ''`[[B]]` [C]({{< relref "C.md" >}})''
   \<and> rewrite ''    `[[Foo]]` [[Bar]]'' RAW = ''    `[[Foo]]` [[Bar]]''
   \<and> rewrite (tab # ''`[[Foo]]`'') RAW = tab # ''`[[Foo]]`''\<close>
proof -
  let ?foo = "esc_open @ ''Foo'' @ esc_close"
  let ?block = "newline # ''echo `date [[Foo]]'' @ [newline]"
  have s1: "''`[[Foo]]`'' = ''```'' @ ''[[Foo]]'' @ ''```'' \<and> \<not> sublist ''```'' (''[[Foo]]'' @ ''``'')
         \<or> ''`[[Foo]]`'' = ''`'' @ ''[[Foo]]'' @ ''`'' \<and> ''[[Foo]]'' \<noteq> [] \<and> CHR 0x60 \<notin> set ''[[Foo]]''"
    by simp
  have s2: "''`'' @ ?foo @ ''`'' = ''```'' @ ?foo @ ''```'' \<and> \<not> sublist ''```'' (?foo @ ''``'')
         \<or> ''`'' @ ?foo @ ''`'' = ''`'' @ ?foo @ ''`'' \<and> ?foo \<noteq> [] \<and> CHR 0x60 \<notin> set ?foo"
    by (simp add: esc_open_def esc_close_def bs_def)
  have "\<not> sublist ''```'' (?block @ ''``'')" by code_simp
  then have s3: "''```'' @ ?block @ ''```'' = ''```'' @ ?block @ ''```'' \<and> \<not> sublist ''```'' (?block @ ''``'')
         \<or> ''```'' @ ?block @ ''```'' = ''`'' @ ?block @ ''`'' \<and> ?block \<noteq> [] \<and> CHR 0x60 \<notin> set ?block"
    by blast
  have s4: "''`[[B]]`'' = ''```'' @ ''[[B]]'' @ ''```'' \<and> \<not> sublist ''```'' (''[[B]]'' @ ''``'')
         \<or> ''`[[B]]`'' = ''`'' @ ''[[B]]'' @ ''`'' \<and> ''[[B]]'' \<noteq> [] \<and> CHR 0x60 \<notin> set ''[[B]]''"
    by simp
  have t1: "through (rules RAW) ''see '' ''`[[Foo]]`'' '' here'' = Some (''see '', '' here'')"
    by code_simp
  have t2: "through (rules ESCAPED) ''see '' (''`'' @ ?foo @ ''`'') '' here''
            = Some (''see '', '' here'')"
    by code_simp
  have t3: "through (rules RAW) [] (''```'' @ ?block @ ''```'') [] = Some ([], [])"
    by code_simp
  have t4: \<open>through (rules RAW) (''[[A]]'' @ [newline]) ''`[[B]]`'' '' [[C]]''
            = Some (''[A]({{< relref "A.md" >}})'' @ [newline], '' [C]({{< relref "C.md" >}})'')\<close>
    by code_simp
  have t5: "through (rules RAW) ''    '' ''`[[Foo]]`'' '' [[Bar]]'' = Some (''    '', '' [[Bar]]'')"
    by code_simp
  have t6: "through (rules RAW) [tab] ''`[[Foo]]`'' [] = Some ([tab], [])"
    by code_simp
  note th = C1_code_span_stays_whole[THEN conjunct2, THEN conjunct2, rule_format]
  from th[OF s1 t1] th[OF s2 t2] th[OF s3 t3] th[OF s4 t4] th[OF s1 t5] th[OF s1 t6]
  show ?thesis by (simp del: rewrite.simps)
qed

text \<open>
  The bare-title reference \<^verbatim>\<open>[[a `b]]\<close> begins before the inline span \<^verbatim>\<open>`b]] c`\<close>
  and ends inside it; it is rewritten. In raw mode a fence that stands after four spaces
  is skipped with the rest of its line by the indentation alternative, and the reference
  on the next line, inside the fenced block, is rewritten.
\<close>

theorem C1_counterexample:
  \<open>rewrite ''[[a `b]] c`'' RAW = ''[a `b]({{< relref "a `b.md" >}}) c`''
   \<and> rewrite (''    ```'' @ newline # ''[[Foo]]'' @ newline # ''```'') RAW
     = ''    ```'' @ newline # ''[Foo]({{< relref "Foo.md" >}})'' @ newline # ''```''\<close>
  by code_simp

text \<open>
  C2. The code at the claim's inputs. The example \<^verbatim>\<open>[[My Note]]\<close> is rewritten as the
  claim says. On a line with a second reference the title group \<^verbatim>\<open>(.*)\<close> runs to the
  last \<^verbatim>\<open>]]\<close> of the line: one directive is written, whose title is all the text from
  the first \<^verbatim>\<open>[[\<close> to the last \<^verbatim>\<open>]]\<close>. And the indentation alternative
  \<^verbatim>\<open>(\ {4}|\t).*\<close> is not bound to the beginning of a line: a reference that follows
  four spaces anywhere in its line is skipped with the rest of the line and stays as it
  is.
\<close>

theorem C2_bare_title_not_always_rewritten:
  \<open>rewrite ''[[My Note]]'' RAW = ''[My Note]({{< relref "My Note.md" >}})''
   \<and> rewrite ''[[My Note]] and [[Other]]'' RAW
     = ''[My Note]] and [[Other]({{< relref "My Note]] and [[Other.md" >}})''
   \<and> rewrite ''- item    [[My Note]]'' RAW = ''- item    [[My Note]]''\<close>
  by code_simp

text \<open>
  C3. The code at the claim's inputs. The example \<^verbatim>\<open>[[42]] (Some Target)\<close> is left alone
  by the bare-title pass and rewritten by the numeric-plus-target pass as the claim
  says. With a further closing parenthesis on the line the target group \<^verbatim>\<open>(.*)\<close> runs
  to the last one, and the target is all the text up to it. With a bare reference later
  on the line the bare-title pass does rewrite the targeted token: its title group runs
  from the first \<^verbatim>\<open>[[\<close> to the last \<^verbatim>\<open>]]\<close>, over the target.
\<close>

theorem C3_target_runs_to_last_parenthesis:
  \<open>linelist ''[[42]] (Some Target)'' = ''[[42]] (Some Target)''
   \<and> rewrite ''[[42]] (Some Target)'' RAW = ''[42 Some Target]({{< relref "42 Some Target.md" >}})''
   \<and> rewrite ''[[42]] (Some Target) (see also)'' RAW
     = ''[42 Some Target) (see also]({{< relref "42 Some Target) (see also.md" >}})''
   \<and> linelist ''[[42]] (Some Target) and [[Other]]''
     = ''[42]] (Some Target) and [[Other]({{< relref "42]] (Some Target) and [[Other.md" >}})''\<close>
  by code_simp

text \<open>
  C4. In escaped mode \<open>rewrite\<close> is the five substitutions in the order of the source,
  each on the whole output of the one before: bare-title, numeric-bracket
  normalization, percent-space decode, numeric-plus-target, and the same for the form
  that is still escaped (first conjunct, for every text). On the claim's document
  \<^verbatim>\<open>[\[42\]] and [42](Some%20Target)\<close> the first pass changes nothing, the second turns
  \<^verbatim>\<open>[\[42\]]\<close> into \<^verbatim>\<open>[42]\<close>, the third decodes \<^verbatim>\<open>%20\<close> in the target, the fourth
  writes the cross-reference and the last changes nothing. What the order is for shows
  on smaller texts: the fourth pass finds \<^verbatim>\<open>[\[42\]](Some Target)\<close> only after the
  second has normalized it; decoding after the fourth pass would leave \<^verbatim>\<open>%20\<close> in the
  link text; the bare-title pass comes first, so that its directive for \<^verbatim>\<open>\[\[42\]\]\<close>
  is itself taken by the fourth pass for a numeric reference with a target; and the
  last pass rewrites \<^verbatim>\<open>\[\[42\]\] (Some Target)\<close>. The claim's output is not what the
  code gives for every document that holds the two references: with a further closing
  parenthesis on the line the target group \<^verbatim>\<open>(.*)\<close> of the fourth pass runs to the last
  one (last conjunct).
\<close>

theorem C4_escaped_pipeline_order:
  \<open>rewrite text ESCAPED = finalpass (fourthpass (thirdpass (secondpass (firstpass text))))
   \<and> firstpass (num_open @ ''42'' @ num_close @ '' and [42](Some%20Target)'')
     = num_open @ ''42'' @ num_close @ '' and [42](Some%20Target)''
   \<and> secondpass (num_open @ ''42'' @ num_close @ '' and [42](Some%20Target)'')
     = ''[42] and [42](Some%20Target)''
   \<and> thirdpass ''[42] and [42](Some%20Target)'' = ''[42] and [42](Some Target)''
   \<and> fourthpass ''[42] and [42](Some Target)''
     = ''[42] and [42 Some Target]({{< relref "42 Some Target.md" >}})''
   \<and> finalpass ''[42] and [42 Some Target]({{< relref "42 Some Target.md" >}})''
     = ''[42] and [42 Some Target]({{< relref "42 Some Target.md" >}})''
   \<and> rewrite (num_open @ ''42'' @ num_close @ '' and [42](Some%20Target)'') ESCAPED
     = ''[42] and [42 Some Target]({{< relref "42 Some Target.md" >}})''
   \<and> fourthpass (num_open @ ''42'' @ num_close @ ''(Some Target)'')
     = num_open @ ''42'' @ num_close @ ''(Some Target)''
   \<and> fourthpass (secondpass (num_open @ ''42'' @ num_close @ ''(Some Target)''))
     = ''[42 Some Target]({{< relref "42 Some Target.md" >}})''
   \<and> fourthpass (thirdpass ''[42](Some%20Target)'')
     = ''[42 Some Target]({{< relref "42 Some Target.md" >}})''
   \<and> thirdpass (fourthpass ''[42](Some%20Target)'')
     = ''[42 Some%20Target]({{< relref "42 Some Target.md" >}})''
   \<and> firstpass (esc_open @ ''42'' @ esc_close) = ''[42]({{< relref "42.md" >}})''
   \<and> rewrite (esc_open @ ''42'' @ esc_close) ESCAPED
     = ''[42 {{< relref "42.md" >}}]({{< relref "42 {{< relref "42.md" >}}.md" >}})''
   \<and> finalpass (esc_open @ ''42'' @ esc_close @ '' (Some Target)'')
     = ''[42 Some Target]({{< relref "42 Some Target.md" >}})''
   \<and> rewrite (num_open @ ''42'' @ num_close @ '' and [42](Some%20Target) (x)'') ESCAPED
     = ''[42] and [42 Some Target) (x]({{< relref "42 Some Target) (x.md" >}})''\<close>
proof -
  have "rewrite text ESCAPED = finalpass (fourthpass (thirdpass (secondpass (firstpass text))))"
    by (simp add: postmaker_text_def)
  moreover have \<open>firstpass (num_open @ ''42'' @ num_close @ '' and [42](Some%20Target)'')
     = num_open @ ''42'' @ num_close @ '' and [42](Some%20Target)''\<close> by code_simp
  moreover have \<open>secondpass (num_open @ ''42'' @ num_close @ '' and [42](Some%20Target)'')
     = ''[42] and [42](Some%20Target)''\<close> by code_simp
  moreover have \<open>thirdpass ''[42] and [42](Some%20Target)'' = ''[42] and [42](Some Target)''\<close>
    by code_simp
  moreover have \<open>fourthpass ''[42] and [42](Some Target)''
     = ''[42] and [42 Some Target]({{< relref "42 Some Target.md" >}})''\<close> by code_simp
  moreover have \<open>finalpass ''[42] and [42 Some Target]({{< relref "42 Some Target.md" >}})''
     = ''[42] and [42 Some Target]({{< relref "42 Some Target.md" >}})''\<close> by code_simp
  moreover have \<open>rewrite (num_open @ ''42'' @ num_close @ '' and [42](Some%20Target)'') ESCAPED
     = ''[42] and [42 Some Target]({{< relref "42 Some Target.md" >}})''\<close> by code_simp
  moreover have \<open>fourthpass (num_open @ ''42'' @ num_close @ ''(Some Target)'')
     = num_open @ ''42'' @ num_close @ ''(Some Target)''\<close> by code_simp
  moreover have \<open>fourthpass (secondpass (num_open @ ''42'' @ num_close @ ''(Some Target)''))
     = ''[42 Some Target]({{< relref "42 Some Target.md" >}})''\<close> by code_simp
  moreover have \<open>fourthpass (thirdpass ''[42](Some%20Target)'')
     = ''[42 Some Target]({{< relref "42 Some Target.md" >}})''\<close> by code_simp
  moreover have \<open>thirdpass (fourthpass ''[42](Some%20Target)'')
     = ''[42 Some%20Target]({{< relref "42 Some Target.md" >}})''\<close> by code_simp
  moreover have \<open>firstpass (esc_open @ ''42'' @ esc_close) = ''[42]({{< relref "42.md" >}})''\<close>
    by code_simp
  moreover have \<open>rewrite (esc_open @ ''42'' @ esc_close) ESCAPED
     = ''[42 {{< relref "42.md" >}}]({{< relref "42 {{< relref "42.md" >}}.md" >}})''\<close>
    by code_simp
  moreover have \<open>finalpass (esc_open @ ''42'' @ esc_close @ '' (Some Target)'')
     = ''[42 Some Target]({{< relref "42 Some Target.md" >}})''\<close> by code_simp
  moreover have \<open>rewrite (num_open @ ''42'' @ num_close @ '' and [42](Some%20Target) (x)'') ESCAPED
     = ''[42] and [42 Some Target) (x]({{< relref "42 Some Target) (x.md" >}})''\<close> by code_simp
  ultimately show ?thesis by (simp only: simp_thms)
qed

text \<open>
  C5 (as amended). An opening triple backtick with no closing one is not a protected
  span. When no backtick follows it, the inline alternative consumes its first two
  backticks as an empty span, the third is copied, and every pass, hence \<open>rewrite\<close> in
  both modes, treats the text after the fence exactly as it treats that text alone:
  bracket patterns after the fence are rewritten.
\<close>

theorem C5_unterminated_fence_protects_nothing:
  assumes "CHR 0x60 \<notin> set rest"
  shows "rewrite (''```'' @ rest) m = ''```'' @ rewrite rest m"
  using assms by (rule open_fence_lemma)

theorem C5_witness:
  \<open>CHR 0x60 \<notin> set (newline # ''[[Foo]]'')
   \<and> rewrite (''```'' @ newline # ''[[Foo]]'') RAW
     = ''```'' @ newline # ''[Foo]({{< relref "Foo.md" >}})''\<close>
proof -
  have h: "CHR 0x60 \<notin> set (newline # ''[[Foo]]'')" by (simp add: newline_def)
  have e: \<open>rewrite (newline # ''[[Foo]]'') RAW = newline # ''[Foo]({{< relref "Foo.md" >}})''\<close>
    by code_simp
  from C5_unterminated_fence_protects_nothing[OF h, of RAW] h e show ?thesis
    by (simp del: rewrite.simps)
qed

text \<open>
  After an opening fence that is never closed, the reference on the next line is
  rewritten in raw mode, and so is the escaped reference in escaped mode.
\<close>

theorem C5_counterexample:
  \<open>rewrite (''```python'' @ newline # ''[[Foo]]'') RAW
     = ''```python'' @ newline # ''[Foo]({{< relref "Foo.md" >}})''
   \<and> rewrite (''```python'' @ newline # esc_open @ ''Foo'' @ esc_close) ESCAPED
     = ''```python'' @ newline # ''[Foo]({{< relref "Foo.md" >}})''\<close>
  by code_simp




text \<open>
  C7 (as amended). A text in which none of the link patterns of the mode occurs, at any
  place, is returned as it is by every pass and by \<open>rewrite\<close>, whatever brackets,
  parentheses, code spans or indentation it holds. The link patterns are the last
  alternatives of the passes (\<open>links\<close>); in escaped mode the percent-space pattern
  \<^verbatim>\<open>\%20+(?=[^(\)]*\))\<close> is one of them, and it holds no square bracket: the claim as
  stated fails on a text without any, see the counterexample. The model is a total
  function, so no exception stands for this input.
\<close>

theorem C7_no_pattern_no_change:
  assumes "\<forall>l\<in>set (links m). \<not> occurs l text"
  shows "(\<forall>p\<in>set (passes m). p text = text) \<and> rewrite text m = text"
  using assms by (rule no_link_lemma)

theorem C7_witness:
  "rewrite ''Hello (world)'' RAW = ''Hello (world)''
   \<and> rewrite ''Hello (world)'' ESCAPED = ''Hello (world)''
   \<and> rewrite ''a [b] c'' RAW = ''a [b] c''
   \<and> rewrite ''a [b] c'' ESCAPED = ''a [b] c''
   \<and> rewrite ''see [text](http://x.y/z) end'' RAW = ''see [text](http://x.y/z) end''
   \<and> rewrite ''see [text](http://x.y/z) end'' ESCAPED = ''see [text](http://x.y/z) end''
   \<and> rewrite ''    100%20 sure ` ]]'' ESCAPED = ''    100%20 sure ` ]]''"
proof -
  have 1: "\<forall>l\<in>set (links RAW). \<not> occurs l ''Hello (world)''" by code_simp
  have 2: "\<forall>l\<in>set (links ESCAPED). \<not> occurs l ''Hello (world)''" by code_simp
  have 3: "\<forall>l\<in>set (links RAW). \<not> occurs l ''a [b] c''" by code_simp
  have 4: "\<forall>l\<in>set (links ESCAPED). \<not> occurs l ''a [b] c''" by code_simp
  have 5: "\<forall>l\<in>set (links RAW). \<not> occurs l ''see [text](http://x.y/z) end''" by code_simp
  have 6: "\<forall>l\<in>set (links ESCAPED). \<not> occurs l ''see [text](http://x.y/z) end''" by code_simp
  have 7: "\<forall>l\<in>set (links ESCAPED). \<not> occurs l ''    100%20 sure ` ]]''" by code_simp
  from C7_no_pattern_no_change[OF 1] C7_no_pattern_no_change[OF 2]
    C7_no_pattern_no_change[OF 3] C7_no_pattern_no_change[OF 4]
    C7_no_pattern_no_change[OF 5] C7_no_pattern_no_change[OF 6]
    C7_no_pattern_no_change[OF 7]
  show ?thesis by (simp del: rewrite.simps)
qed

text \<open>
  In escaped mode the text \<^verbatim>\<open>a%20b)\<close>, which holds no square bracket, is changed: the
  percent-space pass decodes \<^verbatim>\<open>%20\<close> before the closing parenthesis.
\<close>

theorem C7_counterexample:
  "CHR ''['' \<notin> set ''a%20b)'' \<and> CHR '']'' \<notin> set ''a%20b)''
   \<and> rewrite ''a%20b)'' ESCAPED = ''a b)''"
  by code_simp

text \<open>
  C8. The code at the claim's input: a file that is not UTF-8 does not fail alone. In
  both scripts the decoding error leaves \<^verbatim>\<open>modify_links\<close>; in the batch loop it ends the
  run: the file before it is written, nothing is written for it, and the file after it
  is never read. (An unreadable file is logged by the handler, and then the \<^verbatim>\<open>return\<close>
  of the unassigned variable raises in its turn.)
\<close>

theorem C8_undecodable_file_ends_run:
  \<open>process_files [(''a.md'', Text ''[[A]]''), (''b.md'', NotUtf8), (''c.md'', Text ''[[C]]'')] [] 0
     = (Inl UnicodeDecodeError, [(''a.md'', ''[A]({{< relref "A.md" >}})'')])
   \<and> rewriter_modify_links NotUtf8 = Inl UnicodeDecodeError
   \<and> postmaker_modify_links NotUtf8 = Inl UnicodeDecodeError
   \<and> rewriter_modify_links NotReadable = Inl UnboundLocalError\<close>
  by code_simp

text \<open>
  C9 (as amended). In raw mode the two passes differ. The bare-title pass has the
  alternative \<^verbatim>\<open>(\ {4}|\t).*\<close>: after a tab, as after four spaces, it copies the rest of
  the line, so a bare-title reference on a tab-indented line is not rewritten. The
  numeric-plus-target pass has \<^verbatim>\<open>(\ {4}).*\<close> only: it protects after four spaces and
  not after a tab, so a numeric-plus-target reference on a tab-indented line is
  rewritten. Here \<open>l\<close> is the rest of a line, of any content, \<open>r\<close> the lines after it.
\<close>

theorem C9_tab_protects_in_first_pass_only:
  assumes "newline \<notin> set l" "ends_line r"
    and "title \<noteq> []" "\<not> digit (hd title)" "newline \<notin> set title"
        "CHR ''['' \<notin> set title" "CHR 0x60 \<notin> set title"
    and "ident \<noteq> []" "\<forall>x\<in>set ident. digit x"
        "sp = [] \<or> (\<exists>y. sp = [y] \<and> space y \<and> y \<noteq> newline)" "newline \<notin> set target"
  shows \<open>linelist (tab # l @ r) = tab # l @ linelist r
       \<and> linelist (''    '' @ l @ r) = ''    '' @ l @ linelist r
       \<and> linelist_final (''    '' @ l @ r) = ''    '' @ l @ linelist_final r
       \<and> rewrite (tab # ''[['' @ title @ '']]'' @ r) RAW
           = tab # ''[['' @ title @ '']]'' @ rewrite r RAW
       \<and> rewrite (tab # ''[['' @ ident @ '']]'' @ sp @ ''('' @ target @ '')'' @ r) RAW
           = tab # ''['' @ ident @ '' '' @ target @ '']({{< relref "'' @ ident @ '' '' @ target
             @ ''.md" >}})'' @ rewrite r RAW\<close>
  using protected_line[OF assms(1,2)] tab_bare_title[OF assms(3-7) assms(2)]
    tab_numeric_target[OF assms(8-11) assms(2)]
  by (simp del: rewrite.simps add: directive_def)

theorem C9_witness:
  \<open>linelist (tab # ''[[42]](bar)'') = tab # ''[[42]](bar)''
   \<and> rewrite (tab # ''[[Foo]]'') RAW = tab # ''[[Foo]]''
   \<and> rewrite (tab # ''[[42]](bar)'') RAW = tab # ''[42 bar]({{< relref "42 bar.md" >}})''\<close>
proof -
  have h: "newline \<notin> set ''[[42]](bar)''" "ends_line []"
    "''Foo'' \<noteq> []" "\<not> digit (hd ''Foo'')" "newline \<notin> set ''Foo''"
    "CHR ''['' \<notin> set ''Foo''" "CHR 0x60 \<notin> set ''Foo''"
    "''42'' \<noteq> []" "\<forall>x\<in>set ''42''. digit x"
    "[] = [] \<or> (\<exists>y. [] = [y] \<and> space y \<and> y \<noteq> newline)" "newline \<notin> set ''bar''"
    by (simp_all add: newline_def ends_line_def digit_def)
  have n: "linelist [] = []" by code_simp
  from C9_tab_protects_in_first_pass_only[OF h] show ?thesis
    by (simp del: rewrite.simps add: rewrite_nil n)
qed

text \<open>
  A bare-title reference on a tab-indented line is returned as it is: the first pass
  treats the line as protected.
\<close>

theorem C9_counterexample:
  "rewrite (tab # ''[[Foo]]'') RAW = tab # ''[[Foo]]''
   \<and> linelist (tab # ''[[Foo]]'') = tab # ''[[Foo]]''
   \<and> linelist ''[[Foo]]'' \<noteq> ''[[Foo]]''"
  by code_simp

text \<open>
  C10. On a line with two bare-title references the title group \<^verbatim>\<open>(.*)\<close> is greedy: it
  runs to the last closing delimiter of the line, so the line gives one cross-reference
  whose title spans both references, in both modes.
\<close>

theorem C10_two_references_one_match:
  \<open>rewrite ''[[A]] text [[B]]'' RAW = ''[A]] text [[B]({{< relref "A]] text [[B.md" >}})''
   \<and> rewrite (esc_open @ ''A'' @ esc_close @ '' text '' @ esc_open @ ''B'' @ esc_close) ESCAPED
     = ''[A'' @ esc_close @ '' text '' @ esc_open @ ''B]({{< relref "A'' @ esc_close @ '' text ''
       @ esc_open @ ''B.md" >}})''\<close>
  by code_simp

end
